theory Spec2Isabelle
  imports Main
begin

section \<open>Exceptions\<close>

text \<open>
  The exceptions that the modelled code and the library calls it makes can raise.
  A computation that may raise returns \<open>error + 'a\<close>, with \<open>Inl\<close> for the exception.
\<close>

datatype error = ValueError | TypeError | OverflowError | IllegalMonthError | IndexError

section \<open>Calendar dates (\<open>datetime.date\<close>)\<close>

text \<open>
  A \<open>datetime.date\<close> is a year/month/day value. Python integers are unbounded,
  hence \<open>int\<close>. Dates compare by (year, month, day).
\<close>

datatype date = Date (d_year: int) (d_month: int) (d_day: int)

instantiation date :: linorder
begin

definition less_date :: "date \<Rightarrow> date \<Rightarrow> bool" where
  "less_date a b =
     (d_year a < d_year b \<or>
      (d_year a = d_year b \<and>
        (d_month a < d_month b \<or> (d_month a = d_month b \<and> d_day a < d_day b))))"

definition less_eq_date :: "date \<Rightarrow> date \<Rightarrow> bool" where
  "less_eq_date a b = (a < b \<or> a = b)"

instance
proof
  fix x y z :: date
  show "(x < y) = (x \<le> y \<and> \<not> y \<le> x)"
    by (auto simp: less_date_def less_eq_date_def)
  show "x \<le> x"
    by (simp add: less_eq_date_def)
  show "x \<le> y \<Longrightarrow> y \<le> z \<Longrightarrow> x \<le> z"
    by (auto simp: less_date_def less_eq_date_def)
  show "x \<le> y \<Longrightarrow> y \<le> x \<Longrightarrow> x = y"
    by (auto simp: less_date_def less_eq_date_def)
  show "x \<le> y \<or> y \<le> x"
    by (cases x; cases y) (auto simp: less_date_def less_eq_date_def)
qed

end

definition MINYEAR :: int where "MINYEAR = 1"
definition MAXYEAR :: int where "MAXYEAR = 9999"

text \<open>\<open>_DAYS_IN_MONTH\<close> and \<open>_DAYS_BEFORE_MONTH\<close> of \<open>datetime\<close>; index 0 is a placeholder.\<close>

definition DAYS_IN_MONTH :: "int list" where
  "DAYS_IN_MONTH = [-1, 31, 28, 31, 30, 31, 30, 31, 31, 30, 31, 30, 31]"

definition DAYS_BEFORE_MONTH :: "int list" where
  "DAYS_BEFORE_MONTH = [-1, 0, 31, 59, 90, 120, 151, 181, 212, 243, 273, 304, 334]"

definition is_leap :: "int \<Rightarrow> bool" where
  "is_leap y = (y mod 4 = 0 \<and> (y mod 100 \<noteq> 0 \<or> y mod 400 = 0))"

definition days_before_year :: "int \<Rightarrow> int" where
  "days_before_year yr = (let y = yr - 1 in y * 365 + y div 4 - y div 100 + y div 400)"

definition days_in_month :: "int \<Rightarrow> int \<Rightarrow> int" where
  "days_in_month y m = (if m = 2 \<and> is_leap y then 29 else DAYS_IN_MONTH ! nat m)"

definition days_before_month :: "int \<Rightarrow> int \<Rightarrow> int" where
  "days_before_month y m = DAYS_BEFORE_MONTH ! nat m + (if m > 2 \<and> is_leap y then 1 else 0)"

text \<open>The constructor \<open>date(year, month, day)\<close> with its range checks.\<close>

definition mk_date :: "int \<Rightarrow> int \<Rightarrow> int \<Rightarrow> error + date" where
  "mk_date y m d =
     (if \<not> (MINYEAR \<le> y \<and> y \<le> MAXYEAR) then Inl ValueError
      else if \<not> (1 \<le> m \<and> m \<le> 12) then Inl ValueError
      else if \<not> (1 \<le> d \<and> d \<le> days_in_month y m) then Inl ValueError
      else Inr (Date y m d))"

text \<open>The values a \<open>date\<close> object can hold: exactly those the constructor accepts.\<close>

definition valid_date :: "date \<Rightarrow> bool" where
  "valid_date dt =
     (MINYEAR \<le> d_year dt \<and> d_year dt \<le> MAXYEAR \<and> 1 \<le> d_month dt \<and> d_month dt \<le> 12 \<and>
      1 \<le> d_day dt \<and> d_day dt \<le> days_in_month (d_year dt) (d_month dt))"

text \<open>\<open>date.toordinal()\<close>: day 1 is 0001-01-01.\<close>

definition toordinal :: "date \<Rightarrow> int" where
  "toordinal dt =
     days_before_year (d_year dt) + days_before_month (d_year dt) (d_month dt) + d_day dt"

text \<open>\<open>(a - b).days\<close> for two dates.\<close>

definition days_between :: "date \<Rightarrow> date \<Rightarrow> int" where
  "days_between a b = toordinal a - toordinal b"

text \<open>\<open>date.weekday()\<close>: Monday is 0, Sunday is 6.\<close>

definition date_weekday :: "date \<Rightarrow> int" where
  "date_weekday dt = (toordinal dt + 6) mod 7"

text \<open>
  \<open>d - timedelta(days=1)\<close>: the day field is decreased and the date normalized, so
  day 0 becomes the last day of the previous month (31 December of the previous year
  for January); \<open>OverflowError\<close> when the year would fall below \<open>MINYEAR\<close>.
\<close>

definition minus_one_day :: "date \<Rightarrow> error + date" where
  "minus_one_day dt =
     (let y = d_year dt; m = d_month dt; d = d_day dt - 1 in
      if d = 0 then
        (if m - 1 > 0 then Inr (Date y (m - 1) (days_in_month y (m - 1)))
         else if MINYEAR \<le> y - 1 then Inr (Date (y - 1) 12 31)
         else Inl OverflowError)
      else Inr (Date y m d))"

text \<open>Python's two-argument \<open>max\<close> and \<open>min\<close>: the first argument wins a tie.\<close>

definition py_max :: "date \<Rightarrow> date \<Rightarrow> date" where
  "py_max a b = (if b > a then b else a)"

definition py_min :: "date \<Rightarrow> date \<Rightarrow> date" where
  "py_min a b = (if b < a then b else a)"

section \<open>The month grid (\<open>calendar.Calendar(firstweekday=6).monthdatescalendar\<close>)\<close>

text \<open>
  \<open>generate_month_image\<close> takes its week rows from the standard library's
  \<open>calendar\<close> module; the definitions below follow that module function by function.
\<close>

definition mdays :: "int list" where
  "mdays = [0, 31, 28, 31, 30, 31, 30, 31, 31, 30, 31, 30, 31]"

definition isleap :: "int \<Rightarrow> bool" where
  "isleap y = (y mod 4 = 0 \<and> (y mod 100 \<noteq> 0 \<or> y mod 400 = 0))"

definition weekday :: "int \<Rightarrow> int \<Rightarrow> int \<Rightarrow> error + int" where
  "weekday y m d =
     (let y' = (if \<not> (MINYEAR \<le> y \<and> y \<le> MAXYEAR) then 2000 + y mod 400 else y) in
      case mk_date y' m d of Inl e \<Rightarrow> Inl e | Inr dt \<Rightarrow> Inr (date_weekday dt))"

definition monthlen :: "int \<Rightarrow> int \<Rightarrow> int" where
  "monthlen y m = mdays ! nat m + (if m = 2 \<and> isleap y then 1 else 0)"

definition monthrange :: "int \<Rightarrow> int \<Rightarrow> error + int \<times> int" where
  "monthrange y m =
     (if \<not> (1 \<le> m \<and> m \<le> 12) then Inl IllegalMonthError
      else case weekday y m 1 of
             Inl e \<Rightarrow> Inl e
           | Inr day1 \<Rightarrow> Inr (day1, mdays ! nat m + (if m = 2 \<and> isleap y then 1 else 0)))"

definition prevmonth :: "int \<Rightarrow> int \<Rightarrow> int \<times> int" where
  "prevmonth y m = (if m = 1 then (y - 1, 12) else (y, m - 1))"

definition nextmonth :: "int \<Rightarrow> int \<Rightarrow> int \<times> int" where
  "nextmonth y m = (if m = 12 then (y + 1, 1) else (y, m + 1))"

text \<open>\<open>range(a, b)\<close> over integers.\<close>

definition py_range :: "int \<Rightarrow> int \<Rightarrow> int list" where
  "py_range a b = [a..b - 1]"

text \<open>
  \<open>itermonthdays3\<close> with first weekday \<open>fwd\<close>: the (year, month, day) triples of the
  tail of the previous month, the month itself and the head of the next month.
\<close>

definition itermonthdays3 :: "int \<Rightarrow> int \<Rightarrow> int \<Rightarrow> error + (int \<times> int \<times> int) list" where
  "itermonthdays3 fwd y m =
     (case monthrange y m of
        Inl e \<Rightarrow> Inl e
      | Inr (day1, ndays) \<Rightarrow>
          (let days_before = (day1 - fwd) mod 7;
               days_after = (fwd - day1 - ndays) mod 7;
               (py, pm) = prevmonth y m;
               end = monthlen py pm + 1;
               (ny, nm) = nextmonth y m
           in Inr (map (\<lambda>d. (py, pm, d)) (py_range (end - days_before) end) @
                   map (\<lambda>d. (y, m, d)) (py_range 1 (ndays + 1)) @
                   map (\<lambda>d. (ny, nm, d)) (py_range 1 (days_after + 1)))))"

text \<open>\<open>itermonthdates\<close>, collected into a list: the first triple out of range raises.\<close>

fun dates_of :: "(int \<times> int \<times> int) list \<Rightarrow> error + date list" where
  "dates_of [] = Inr []"
| "dates_of ((y, m, d) # rest) =
     (case mk_date y m d of
        Inl e \<Rightarrow> Inl e
      | Inr dt \<Rightarrow> (case dates_of rest of Inl e \<Rightarrow> Inl e | Inr ds \<Rightarrow> Inr (dt # ds)))"

definition itermonthdates :: "int \<Rightarrow> int \<Rightarrow> int \<Rightarrow> error + date list" where
  "itermonthdates fwd y m =
     (case itermonthdays3 fwd y m of Inl e \<Rightarrow> Inl e | Inr ts \<Rightarrow> dates_of ts)"

text \<open>\<open>[dates[i:i+7] for i in range(0, len(dates), 7)]\<close>.\<close>

fun rows_of_7 :: "'a list \<Rightarrow> 'a list list" where
  "rows_of_7 [] = []"
| "rows_of_7 (x # xs) = take 7 (x # xs) # rows_of_7 (drop 7 (x # xs))"

definition monthdatescalendar :: "int \<Rightarrow> int \<Rightarrow> int \<Rightarrow> error + date list list" where
  "monthdatescalendar fwd y m =
     (case itermonthdates fwd y m of Inl e \<Rightarrow> Inl e | Inr dates \<Rightarrow> Inr (rows_of_7 dates))"

text \<open>The grid of the program: \<open>calendar.Calendar(firstweekday=6)\<close>, Sunday first.\<close>

definition month_weeks :: "int \<Rightarrow> int \<Rightarrow> error + date list list" where
  "month_weeks y m = monthdatescalendar 6 y m"

section \<open>Events\<close>

text \<open>
  A Python \<open>str\<close> is a sequence of code points; \<open>len\<close> counts them and slicing
  cuts between them.
\<close>

type_synonym pystr = "nat list"

definition py_str :: "string \<Rightarrow> pystr" where
  "py_str s = map of_char s"

text \<open>
  The values an event's \<open>start\<close> and \<open>end\<close> can hold: a date, a datetime (its date
  and its time of day), a string, \<open>None\<close> (also what \<open>ev.get\<close> gives for an absent
  key), or anything else.
\<close>

datatype pyobj =
    DateObj date
  | DateTimeObj date nat
  | StrObj pystr
  | NoneObj
  | OtherObj

text \<open>
  The two library parsers \<open>date.fromisoformat\<close> and \<open>datetime.fromisoformat\<close> are
  parameters of the model; \<open>None\<close> stands for the exception either raises on a string
  it does not accept.
\<close>

record parsers =
  date_fromisoformat :: "pystr \<Rightarrow> date option"
  datetime_fromisoformat :: "pystr \<Rightarrow> (date \<times> nat) option"

text \<open>\<open>_to_date\<close>.\<close>

fun to_date :: "parsers \<Rightarrow> pyobj \<Rightarrow> error + date" where
  "to_date P (DateObj d) = Inr d"
| "to_date P (DateTimeObj d t) = Inr d"
| "to_date P (StrObj s) =
     (case date_fromisoformat P s of
        Some d \<Rightarrow> Inr d
      | None \<Rightarrow>
          (case datetime_fromisoformat P s of
             Some (d, t) \<Rightarrow> Inr d
           | None \<Rightarrow> Inl ValueError))"
| "to_date P NoneObj = Inl TypeError"
| "to_date P OtherObj = Inl TypeError"

text \<open>An input event dictionary; an absent \<open>summary\<close> or \<open>color_id\<close> key is \<open>None\<close>.\<close>

record event =
  ev_summary :: "pystr option"
  ev_start :: pyobj
  ev_end :: pyobj
  ev_color_id :: "pystr option"

text \<open>An entry of the list \<open>_prepare_events\<close> returns.\<close>

record prepared_event =
  summary :: pystr
  start_date :: date
  end_date :: date
  color_id :: "pystr option"

text \<open>
  The body of the loop of \<open>_prepare_events\<close> for one event: \<open>Inr None\<close> when the
  event is skipped (unparseable, or outside the month), \<open>Inr (Some p)\<close> when \<open>p\<close> is
  appended.
\<close>

definition prepare_event ::
  "parsers \<Rightarrow> date \<Rightarrow> date \<Rightarrow> event \<Rightarrow> error + prepared_event option" where
  "prepare_event P first_of_month last_of_month ev =
     (case to_date P (ev_start ev) of
        Inl exc \<Rightarrow> Inr None
      | Inr s \<Rightarrow>
          (case to_date P (ev_end ev) of
             Inl exc \<Rightarrow> Inr None
           | Inr e \<Rightarrow>
               (case (if e > s then minus_one_day e else Inr e) of
                  Inl err \<Rightarrow> Inl err
                | Inr e_inclusive \<Rightarrow>
                    (let ev_start = py_max s first_of_month;
                         ev_end = py_min e_inclusive last_of_month
                     in if ev_start \<le> last_of_month \<and> ev_end \<ge> first_of_month
                        then Inr (Some \<lparr>summary = (case ev_summary ev of
                                                       None \<Rightarrow> py_str ''(No title)''
                                                     | Some t \<Rightarrow> t),
                                         start_date = ev_start,
                                         end_date = ev_end,
                                         color_id = ev_color_id ev\<rparr>)
                        else Inr None))))"

fun prepare_loop ::
  "parsers \<Rightarrow> date \<Rightarrow> date \<Rightarrow> event list \<Rightarrow> prepared_event list \<Rightarrow> error + prepared_event list"
where
  "prepare_loop P fom lom [] prepared = Inr prepared"
| "prepare_loop P fom lom (ev # evs) prepared =
     (case prepare_event P fom lom ev of
        Inl err \<Rightarrow> Inl err
      | Inr None \<Rightarrow> prepare_loop P fom lom evs prepared
      | Inr (Some p) \<Rightarrow> prepare_loop P fom lom evs (prepared @ [p]))"

text \<open>\<open>_prepare_events\<close>.\<close>

definition prepare_events ::
  "parsers \<Rightarrow> event list \<Rightarrow> int \<Rightarrow> int \<Rightarrow> error + prepared_event list" where
  "prepare_events P events y m =
     (case mk_date y m 1 of
        Inl err \<Rightarrow> Inl err
      | Inr first_of_month \<Rightarrow>
          (case (if m = 12 then mk_date (y + 1) 1 1 else mk_date y (m + 1) 1) of
             Inl err \<Rightarrow> Inl err
           | Inr first_next_month \<Rightarrow>
               (case minus_one_day first_next_month of
                  Inl err \<Rightarrow> Inl err
                | Inr last_of_month \<Rightarrow>
                    prepare_loop P first_of_month last_of_month events [])))"

section \<open>Segments and slots\<close>

record segment =
  start_col :: int
  end_col :: int
  span :: int
  slot :: int
  seg_summary :: pystr
  seg_color_id :: "pystr option"

text \<open>
  The inner loop of \<open>find_slot\<close>: does a segment of the week in slot \<open>sl\<close> overlap
  the columns \<open>[sc, ec]\<close>?
\<close>

fun slot_overlap :: "segment list \<Rightarrow> int \<Rightarrow> int \<Rightarrow> int \<Rightarrow> bool" where
  "slot_overlap [] sl sc ec = False"
| "slot_overlap (seg # rest) sl sc ec =
     (if slot seg \<noteq> sl then slot_overlap rest sl sc ec
      else if \<not> (ec < start_col seg \<or> sc > end_col seg) then True
      else slot_overlap rest sl sc ec)"

text \<open>The outer loop of \<open>find_slot\<close> over the remaining slot indices.\<close>

fun find_slot_in :: "segment list \<Rightarrow> int \<Rightarrow> int \<Rightarrow> int list \<Rightarrow> int option" where
  "find_slot_in segments_for_week sc ec [] = None"
| "find_slot_in segments_for_week sc ec (sl # sls) =
     (if \<not> slot_overlap segments_for_week sl sc ec then Some sl
      else find_slot_in segments_for_week sc ec sls)"

definition find_slot :: "segment list \<Rightarrow> int \<Rightarrow> int \<Rightarrow> int \<Rightarrow> int option" where
  "find_slot segments_for_week sc ec max_slots =
     find_slot_in segments_for_week sc ec (py_range 0 max_slots)"

text \<open>
  The body of the loop over the weeks in \<open>generate_month_image\<close>: event \<open>ev\<close> meets
  week \<open>wi\<close>. Indexing an empty week or a missing row raises \<open>IndexError\<close>.
\<close>

definition week_step ::
  "prepared_event \<Rightarrow> nat \<Rightarrow> date list \<Rightarrow> segment list list \<Rightarrow> error + segment list list" where
  "week_step ev wi week week_segments =
     (case week of
        [] \<Rightarrow> Inl IndexError
      | w0 # ws \<Rightarrow>
          (let week_start = w0;
               week_end = last week;
               seg_start = py_max (start_date ev) week_start;
               seg_end = py_min (end_date ev) week_end
           in if seg_start \<le> seg_end then
                (let sc = days_between seg_start week_start;
                     sp = days_between seg_end seg_start + 1;
                     ec = sc + sp - 1
                 in if \<not> wi < length week_segments then Inl IndexError
                    else case find_slot (week_segments ! wi) sc ec 3 of
                           None \<Rightarrow> Inr week_segments
                         | Some sl \<Rightarrow>
                             Inr (week_segments[wi := week_segments ! wi @
                                    [\<lparr>start_col = sc, end_col = ec, span = sp, slot = sl,
                                      seg_summary = summary ev,
                                      seg_color_id = color_id ev\<rparr>]]))
              else Inr week_segments))"

fun weeks_loop ::
  "prepared_event \<Rightarrow> (nat \<times> date list) list \<Rightarrow> segment list list \<Rightarrow> error + segment list list"
where
  "weeks_loop ev [] week_segments = Inr week_segments"
| "weeks_loop ev ((wi, week) # rest) week_segments =
     (case week_step ev wi week week_segments of
        Inl err \<Rightarrow> Inl err
      | Inr week_segments' \<Rightarrow> weeks_loop ev rest week_segments')"

fun events_loop ::
  "prepared_event list \<Rightarrow> date list list \<Rightarrow> segment list list \<Rightarrow> error + segment list list"
where
  "events_loop [] weeks week_segments = Inr week_segments"
| "events_loop (ev # evs) weeks week_segments =
     (case weeks_loop ev (enumerate 0 weeks) week_segments of
        Inl err \<Rightarrow> Inl err
      | Inr week_segments' \<Rightarrow> events_loop evs weeks week_segments')"

text \<open>
  The layout part of \<open>generate_month_image\<close> (the grid, the prepared events and the
  segments of every week row), in the order the function computes them. The drawing
  around it is not part of the model: in particular the title, which with the English
  title format builds \<open>datetime(year, month, 1)\<close> before the grid and so raises
  \<open>ValueError\<close> first when the year or the month is out of range.
\<close>

definition build_week_segments ::
  "parsers \<Rightarrow> int \<Rightarrow> int \<Rightarrow> event list \<Rightarrow> error + segment list list" where
  "build_week_segments P y m events =
     (case month_weeks y m of
        Inl err \<Rightarrow> Inl err
      | Inr weeks \<Rightarrow>
          (case prepare_events P events y m of
             Inl err \<Rightarrow> Inl err
           | Inr prepared_events \<Rightarrow>
               events_loop prepared_events weeks (replicate (length weeks) [])))"

text \<open>The text drawn on a pill: the summary cut to \<open>max_chars = 20\<close>.\<close>

definition max_chars :: nat where "max_chars = 20"

definition pill_text :: "pystr \<Rightarrow> pystr" where
  "pill_text text =
     (if length text > max_chars then take (max_chars - 3) text @ py_str ''...'' else text)"

section \<open>Notions used to state the properties\<close>

text \<open>
  The overlap of two column ranges and the eligibility of a slot are stated as the design
  document words them; \<open>find_slot\<close> is compared with them below.
\<close>

text \<open>Two inclusive ranges \<open>[a, b]\<close> and \<open>[c, d]\<close> overlap iff not (\<open>b < c\<close> or \<open>a > d\<close>).\<close>

definition ranges_overlap :: "int \<Rightarrow> int \<Rightarrow> int \<Rightarrow> int \<Rightarrow> bool" where
  "ranges_overlap a b c d = (\<not> (b < c \<or> a > d))"

text \<open>
  A slot is eligible for the columns \<open>[sc, ec]\<close> when no segment already placed in that
  slot of the week has a column range overlapping \<open>[sc, ec]\<close>.
\<close>

definition eligible :: "segment list \<Rightarrow> int \<Rightarrow> int \<Rightarrow> int \<Rightarrow> bool" where
  "eligible segs sl sc ec =
     (\<forall>seg \<in> set segs. slot seg = sl \<longrightarrow> \<not> ranges_overlap sc ec (start_col seg) (end_col seg))"

text \<open>Within a row, segments that share a slot have disjoint column ranges.\<close>

fun row_ok :: "segment list \<Rightarrow> bool" where
  "row_ok [] = True"
| "row_ok (s # rest) =
     ((\<forall>t \<in> set rest. slot t = slot s \<longrightarrow>
         \<not> ranges_overlap (start_col s) (end_col s) (start_col t) (end_col t)) \<and>
      row_ok rest)"

text \<open>Every slot of a row is one of the three slot indices.\<close>

definition slots_ok :: "segment list \<Rightarrow> bool" where
  "slots_ok row = (\<forall>s \<in> set row. 0 \<le> slot s \<and> slot s < 3)"

text \<open>A segment covers a day column.\<close>

definition covers :: "int \<Rightarrow> segment \<Rightarrow> bool" where
  "covers c s = (start_col s \<le> c \<and> c \<le> end_col s)"

text \<open>The invariant of the segment-building loops.\<close>

definition rows_ok :: "segment list list \<Rightarrow> bool" where
  "rows_ok W = (\<forall>row \<in> set W. row_ok row \<and> slots_ok row)"

text \<open>
  What the week step does to the row of its week: the row after event \<open>ev\<close> has met
  a non-empty week, obtained from \<open>week_step\<close> by reading it on one row.
\<close>

definition row_step :: "prepared_event \<Rightarrow> date list \<Rightarrow> segment list \<Rightarrow> segment list" where
  "row_step ev week row =
     (let seg_start = py_max (start_date ev) (hd week);
          seg_end = py_min (end_date ev) (last week)
      in if seg_start \<le> seg_end then
           (let sc = days_between seg_start (hd week);
                sp = days_between seg_end seg_start + 1;
                ec = sc + sp - 1
            in case find_slot row sc ec 3 of
                 None \<Rightarrow> row
               | Some sl \<Rightarrow>
                   row @ [\<lparr>start_col = sc, end_col = ec, span = sp, slot = sl,
                           seg_summary = summary ev, seg_color_id = color_id ev\<rparr>])
         else row)"

subsection \<open>Sample data\<close>

text \<open>Parsers that accept no string.\<close>

definition no_parsers :: parsers where
  "no_parsers = \<lparr>date_fromisoformat = (\<lambda>s. None), datetime_fromisoformat = (\<lambda>s. None)\<rparr>"

text \<open>An event dictionary without title and colour whose start and end are dates.\<close>

definition all_day :: "date \<Rightarrow> date \<Rightarrow> event" where
  "all_day a b = \<lparr>ev_summary = None, ev_start = DateObj a, ev_end = DateObj b, ev_color_id = None\<rparr>"

text \<open>The placeholder title.\<close>

definition untitled :: pystr where
  "untitled = py_str ''(No title)''"

text \<open>The segment of an untitled event over the columns \<open>[sc, ec]\<close> in slot \<open>sl\<close>.\<close>

definition pill :: "int \<Rightarrow> int \<Rightarrow> int \<Rightarrow> segment" where
  "pill sc ec sl = \<lparr>start_col = sc, end_col = ec, span = ec - sc + 1, slot = sl,
                     seg_summary = untitled, seg_color_id = None\<rparr>"

text \<open>The week row of Sunday 3 March 2024.\<close>

definition week_2024_03_03 :: "date list" where
  "week_2024_03_03 = map (Date 2024 3) [3, 4, 5, 6, 7, 8, 9]"

text \<open>A prepared, untitled event from \<open>a\<close> to \<open>b\<close> inclusive.\<close>

definition spanning :: "date \<Rightarrow> date \<Rightarrow> prepared_event" where
  "spanning a b = \<lparr>summary = untitled, start_date = a, end_date = b, color_id = None\<rparr>"

text \<open>The four week rows of February 2015, which begins on a Sunday.\<close>

definition february_2015 :: "date list list" where
  "february_2015 = map (map (Date 2015 2))
     [[1, 2, 3, 4, 5, 6, 7], [8, 9, 10, 11, 12, 13, 14], [15, 16, 17, 18, 19, 20, 21],
      [22, 23, 24, 25, 26, 27, 28]]"

section \<open>Calendar arithmetic\<close>

lemma isleap_eq: "isleap y = is_leap y"
  by (simp add: isleap_def is_leap_def)

lemma month_cases:
  assumes "1 \<le> m" "m \<le> 12"
  obtains "m = 1" | "m = 2" | "m = 3" | "m = 4" | "m = 5" | "m = 6"
        | "m = 7" | "m = 8" | "m = 9" | "m = 10" | "m = 11" | "m = (12::int)"
proof -
  from assms have "m = 1 \<or> m = 2 \<or> m = 3 \<or> m = 4 \<or> m = 5 \<or> m = 6 \<or>
      m = 7 \<or> m = 8 \<or> m = 9 \<or> m = 10 \<or> m = 11 \<or> m = 12"
    by presburger
  then show ?thesis using that by blast
qed

lemma monthlen_eq: "1 \<le> m \<Longrightarrow> m \<le> 12 \<Longrightarrow> monthlen y m = days_in_month y m"
  by (erule (1) month_cases)
     (simp_all add: monthlen_def days_in_month_def mdays_def DAYS_IN_MONTH_def isleap_eq)

lemma days_in_month_bounds:
  "1 \<le> m \<Longrightarrow> m \<le> 12 \<Longrightarrow> 28 \<le> days_in_month y m \<and> days_in_month y m \<le> 31"
  by (erule (1) month_cases) (simp_all add: days_in_month_def DAYS_IN_MONTH_def)

lemma days_before_month_Suc:
  "1 \<le> m \<Longrightarrow> m \<le> 11 \<Longrightarrow>
     days_before_month y (m + 1) = days_before_month y m + days_in_month y m"
  by (erule month_cases[of m])
     (simp_all add: days_before_month_def days_in_month_def DAYS_BEFORE_MONTH_def DAYS_IN_MONTH_def)

lemma days_before_month_1: "days_before_month y 1 = 0"
  by (simp add: days_before_month_def DAYS_BEFORE_MONTH_def)

lemma days_before_month_12:
  "days_before_month y 12 + 31 = (if is_leap y then 366 else 365)"
  by (simp add: days_before_month_def DAYS_BEFORE_MONTH_def)

lemma div_step:
  assumes "0 < k"
  shows "(y::int) div k = (y - 1) div k + (if y mod k = 0 then 1 else 0)"
proof -
  define q where "q = (y - 1) div k"
  define r where "r = (y - 1) mod k"
  have y: "y = q * k + (r + 1)"
    unfolding q_def r_def by (simp add: algebra_simps)
  have r: "0 \<le> r" "r < k" using assms by (simp_all add: r_def)
  show ?thesis
  proof (cases "r + 1 = k")
    case True
    then have "y = (q + 1) * k" using y by (simp add: algebra_simps)
    then have "y div k = q + 1" "y mod k = 0" using assms by simp_all
    then show ?thesis by (simp add: q_def)
  next
    case False
    with r have lt: "r + 1 < k" "0 \<le> r + 1" by simp_all
    have "y div k = q + (r + 1) div k" using assms by (subst y) (simp only: div_mult_self3)
    moreover have "y mod k = (r + 1) mod k" by (subst y) (simp only: mod_mult_self3)
    ultimately have "y div k = q" "y mod k = r + 1" using lt by simp_all
    with r show ?thesis by (simp add: q_def)
  qed
qed

lemma days_before_year_Suc:
  "days_before_year (y + 1) = days_before_year y + (if is_leap y then 366 else 365)"
proof -
  define a b c a' b' c' where "a = y div 4" and "b = y div 100" and "c = y div 400"
    and "a' = (y - 1) div 4" and "b' = (y - 1) div 100" and "c' = (y - 1) div 400"
  define p4 p100 p400 where "p4 = (y mod 4 = 0)" and "p100 = (y mod 100 = 0)"
    and "p400 = (y mod 400 = 0)"
  have "(100::int) dvd 400" and "(4::int) dvd 100" by simp_all
  then have i1: "p400 \<Longrightarrow> p100" and i2: "p100 \<Longrightarrow> p4"
    unfolding p400_def p100_def p4_def mod_eq_0_iff_dvd by (blast intro: dvd_trans)+
  have e4: "a = a' + (if p4 then 1 else 0)"
    unfolding a_def a'_def p4_def by (rule div_step) simp
  have e100: "b = b' + (if p100 then 1 else 0)"
    unfolding b_def b'_def p100_def by (rule div_step) simp
  have e400: "c = c' + (if p400 then 1 else 0)"
    unfolding c_def c'_def p400_def by (rule div_step) simp
  have l: "days_before_year (y + 1) = y * 365 + a - b + c"
    by (simp add: days_before_year_def a_def b_def c_def)
  have r: "days_before_year y = (y - 1) * 365 + a' - b' + c'"
    by (simp add: days_before_year_def Let_def a'_def b'_def c'_def)
  have lp: "is_leap y = (p4 \<and> (\<not> p100 \<or> p400))"
    by (simp add: is_leap_def p4_def p100_def p400_def)
  show ?thesis
    unfolding l r lp using e4 e100 e400 i1 i2
    by (cases p4; cases p100; cases p400) (simp_all add: algebra_simps)
qed


lemma toordinal_Date:
  "toordinal (Date y m d) = days_before_year y + days_before_month y m + d"
  by (simp add: toordinal_def)

lemma toordinal_month_end:
  assumes "1 \<le> m" "m \<le> 12"
  shows "toordinal (Date y m (days_in_month y m)) + 1 =
           (if m = 12 then toordinal (Date (y + 1) 1 1) else toordinal (Date y (m + 1) 1))"
proof (cases "m = 12")
  case True
  then show ?thesis
    using days_before_year_Suc[of y] days_before_month_12[of y]
    by (simp add: toordinal_Date days_before_month_1 days_in_month_def DAYS_IN_MONTH_def)
next
  case False
  with assms have "m \<le> 11" by simp
  from days_before_month_Suc[OF assms(1) this, of y] False show ?thesis
    by (simp add: toordinal_Date)
qed

lemma minus_one_day_ordinal:
  assumes "valid_date e" "minus_one_day e = Inr e'"
  shows "toordinal e' = toordinal e - 1 \<and> valid_date e'"
proof -
  obtain y m d where e: "e = Date y m d" by (cases e)
  from assms(1) e have v: "1 \<le> y" "y \<le> 9999" "1 \<le> m" "m \<le> 12" "1 \<le> d" "d \<le> days_in_month y m"
    by (simp_all add: valid_date_def MINYEAR_def MAXYEAR_def)
  show ?thesis
  proof (cases "d = 1")
    case False
    with assms(2) e v show ?thesis
      by (auto simp: minus_one_day_def Let_def toordinal_Date valid_date_def MINYEAR_def MAXYEAR_def)
  next
    case d: True
    show ?thesis
    proof (cases "m = 1")
      case False
      with v have m: "1 \<le> m - 1" "m - 1 \<le> 12" "m - 1 \<noteq> 12" by simp_all
      from assms(2) e d False v have e': "e' = Date y (m - 1) (days_in_month y (m - 1))"
        by (auto simp: minus_one_day_def Let_def)
      from toordinal_month_end[OF m(1,2), of y] m(3) d e
      have "toordinal e' = toordinal e - 1" by (simp add: e')
      moreover from days_in_month_bounds[OF m(1,2), of y] v m have "valid_date e'"
        by (simp add: e' valid_date_def MINYEAR_def MAXYEAR_def)
      ultimately show ?thesis by simp
    next
      case True
      from assms(2) e d True v have y: "1 \<le> y - 1" and e': "e' = Date (y - 1) 12 31"
        by (auto simp: minus_one_day_def Let_def MINYEAR_def split: if_splits)
      from toordinal_month_end[of 12 "y - 1"] d e True
      have "toordinal e' = toordinal e - 1"
        by (simp add: e' days_in_month_def DAYS_IN_MONTH_def)
      moreover from y v have "valid_date e'"
        by (simp add: e' valid_date_def MINYEAR_def MAXYEAR_def days_in_month_def DAYS_IN_MONTH_def)
      ultimately show ?thesis by simp
    qed
  qed
qed

lemma py_max_eq: "py_max a b = max a b"
  by (auto simp: py_max_def max_def)

lemma py_min_eq: "py_min a b = min a b"
  by (auto simp: py_min_def min_def)

section \<open>The month grid\<close>

lemma dates_of_append:
  "dates_of xs = Inr a \<Longrightarrow> dates_of ys = Inr b \<Longrightarrow> dates_of (xs @ ys) = Inr (a @ b)"
  by (induction xs arbitrary: a) (auto split: sum.splits)

lemma mk_date_valid:
  "1 \<le> y \<Longrightarrow> y \<le> 9999 \<Longrightarrow> 1 \<le> m \<Longrightarrow> m \<le> 12 \<Longrightarrow> 1 \<le> d \<Longrightarrow> d \<le> days_in_month y m \<Longrightarrow>
     mk_date y m d = Inr (Date y m d)"
  by (simp add: mk_date_def MINYEAR_def MAXYEAR_def)

lemma mk_date_InrD:
  "mk_date y m d = Inr dt \<Longrightarrow>
     dt = Date y m d \<and> 1 \<le> y \<and> y \<le> 9999 \<and> 1 \<le> m \<and> m \<le> 12 \<and> 1 \<le> d \<and> d \<le> days_in_month y m"
  by (auto simp: mk_date_def MINYEAR_def MAXYEAR_def split: if_splits)

lemma dates_of_map:
  assumes "ds \<noteq> [] \<longrightarrow> 1 \<le> y \<and> y \<le> 9999 \<and> 1 \<le> m \<and> m \<le> 12"
    and "\<forall>d \<in> set ds. 1 \<le> d \<and> d \<le> days_in_month y m"
  shows "dates_of (map (\<lambda>d. (y, m, d)) ds) = Inr (map (Date y m) ds)"
  using assms by (induction ds) (simp_all add: mk_date_valid)

lemma dates_of_InrD:
  "dates_of ts = Inr ds \<Longrightarrow>
     length ds = length ts \<and> (\<forall>t \<in> set ts. mk_date (fst t) (fst (snd t)) (snd (snd t)) \<noteq> Inl ValueError)
     \<and> (\<forall>d \<in> set ds. valid_date d)"
proof (induction ts arbitrary: ds)
  case Nil
  then show ?case by simp
next
  case (Cons t ts)
  obtain y m d where t: "t = (y, m, d)" by (cases t)
  from Cons.prems t obtain dt ds' where dt: "mk_date y m d = Inr dt" and r: "dates_of ts = Inr ds'"
    and ds: "ds = dt # ds'"
    by (auto split: sum.splits)
  from mk_date_InrD[OF dt] have "valid_date dt"
    by (simp add: valid_date_def MINYEAR_def MAXYEAR_def)
  with Cons.IH[OF r] dt ds t show ?case by simp
qed

lemma map_add_upto: "map (\<lambda>d. k + d) [a..b] = [k + a..k + b]"
  by (rule nth_equalityI) (simp_all add: algebra_simps)

lemma upto_append: "a \<le> b + 1 \<Longrightarrow> b \<le> c \<Longrightarrow> [a..b] @ [b + 1..c] = [a..c]"
  by (rule nth_equalityI) (auto simp: nth_append algebra_simps)

lemma concat_rows_of_7: "concat (rows_of_7 xs) = xs"
  by (induction xs rule: rows_of_7.induct) simp_all

lemma rows_of_7_length:
  "length xs = 7 * n \<Longrightarrow>
     length (rows_of_7 xs) = n \<and> (\<forall>row \<in> set (rows_of_7 xs). length row = 7) \<and>
     (\<forall>k < n. rows_of_7 xs ! k = take 7 (drop (7 * k) xs))"
proof (induction n arbitrary: xs)
  case 0
  then show ?case by simp
next
  case (Suc n)
  then obtain x xs' where x: "xs = x # xs'" by (cases xs) auto
  from Suc.prems have l: "length (drop 7 xs) = 7 * n" by simp
  note ih = Suc.IH[OF l]
  have r: "rows_of_7 xs = take 7 xs # rows_of_7 (drop 7 xs)"
    unfolding x by (simp only: rows_of_7.simps)
  have "rows_of_7 xs ! k = take 7 (drop (7 * k) xs)" if "k < Suc n" for k
  proof (cases k)
    case 0
    then show ?thesis by (simp add: r)
  next
    case (Suc k')
    with that ih have "rows_of_7 (drop 7 xs) ! k' = take 7 (drop (7 * k') (drop 7 xs))" by simp
    with Suc show ?thesis by (simp add: r add.commute)
  qed
  with ih Suc.prems show ?case by (auto simp: r)
qed

lemma monthrange_valid:
  assumes "1 \<le> y" "y \<le> 9999" "1 \<le> m" "m \<le> 12"
  shows "monthrange y m = Inr (date_weekday (Date y m 1), days_in_month y m)"
proof -
  from days_in_month_bounds[OF assms(3,4), of y] have "1 \<le> days_in_month y m" by simp
  with assms have "mk_date y m 1 = Inr (Date y m 1)" by (simp add: mk_date_valid)
  with assms(1,2) have "weekday y m 1 = Inr (date_weekday (Date y m 1))"
    by (simp add: weekday_def MINYEAR_def MAXYEAR_def)
  moreover have "mdays ! nat m + (if m = 2 \<and> isleap y then 1 else 0) = days_in_month y m"
    using monthlen_eq[OF assms(3,4), of y] by (simp add: monthlen_def)
  ultimately show ?thesis using assms(3,4) by (simp add: monthrange_def)
qed

lemma prevmonth_facts:
  assumes "1 \<le> y" "y \<le> 9999" "1 \<le> m" "m \<le> 12" "prevmonth y m = (py, pm)"
  shows "1 \<le> pm \<and> pm \<le> 12 \<and> pm \<noteq> m \<and> py \<le> 9999 \<and> (\<not> (y = 1 \<and> m = 1) \<longrightarrow> 1 \<le> py) \<and>
         toordinal (Date py pm (days_in_month py pm)) + 1 = toordinal (Date y m 1)"
proof (cases "m = 1")
  case True
  with assms(5) have p: "py = y - 1" "pm = 12" by (simp_all add: prevmonth_def)
  from toordinal_month_end[of 12 "y - 1"] assms(1,2) True show ?thesis by (auto simp: p)
next
  case False
  with assms(5) have p: "py = y" "pm = m - 1" by (simp_all add: prevmonth_def)
  from False assms(3,4) have "1 \<le> m - 1" "m - 1 \<le> 12" "m - 1 \<noteq> 12" by simp_all
  from toordinal_month_end[OF this(1,2), of y] this(3) False assms show ?thesis by (auto simp: p)
qed

lemma nextmonth_facts:
  assumes "1 \<le> y" "y \<le> 9999" "1 \<le> m" "m \<le> 12" "nextmonth y m = (ny, nm)"
  shows "1 \<le> nm \<and> nm \<le> 12 \<and> nm \<noteq> m \<and> 1 \<le> ny \<and> (\<not> (y = 9999 \<and> m = 12) \<longrightarrow> ny \<le> 9999) \<and>
         toordinal (Date y m (days_in_month y m)) + 1 = toordinal (Date ny nm 1)"
proof (cases "m = 12")
  case True
  with assms(5) have p: "ny = y + 1" "nm = 1" by (simp_all add: nextmonth_def)
  from toordinal_month_end[OF assms(3,4), of y] assms(1,2) True show ?thesis by (auto simp: p)
next
  case False
  with assms(5) have p: "ny = y" "nm = m + 1" by (simp_all add: nextmonth_def)
  from toordinal_month_end[OF assms(3,4), of y] False assms show ?thesis by (auto simp: p)
qed

lemma map_toordinal_Date:
  "map toordinal (map (Date y m) [a..b]) =
     [days_before_year y + days_before_month y m + a..days_before_year y + days_before_month y m + b]"
  by (simp add: toordinal_Date[abs_def] o_def map_add_upto)

lemma itermonthdates_grid:
  assumes "1 \<le> y" "y \<le> 9999" "1 \<le> m" "m \<le> 12" "\<not> (y = 1 \<and> m = 1)" "\<not> (y = 9999 \<and> m = 12)"
  defines "o1 \<equiv> toordinal (Date y m 1)"
  defines "nd \<equiv> days_in_month y m"
  defines "bf \<equiv> (date_weekday (Date y m 1) - 6) mod 7"
  defines "af \<equiv> (6 - date_weekday (Date y m 1) - days_in_month y m) mod 7"
  shows "\<exists>L. itermonthdates 6 y m = Inr L \<and>
              map toordinal L = [o1 - bf..o1 + nd + af - 1] \<and>
              {d \<in> set L. d_month d = m} = Date y m ` {1..nd} \<and>
              (\<forall>d \<in> set L. valid_date d)"
proof -
  obtain py pm where pv: "prevmonth y m = (py, pm)" by (cases "prevmonth y m")
  obtain ny nm where nx: "nextmonth y m = (ny, nm)" by (cases "nextmonth y m")
  note pf = prevmonth_facts[OF assms(1-4) pv]
  note nf = nextmonth_facts[OF assms(1-4) nx]
  define dp where "dp = days_in_month py pm"
  from pf have dpb: "28 \<le> dp" "dp \<le> 31" using days_in_month_bounds[of pm py] by (simp_all add: dp_def)
  have ndb: "28 \<le> nd" "nd \<le> 31" using days_in_month_bounds[OF assms(3,4), of y] by (simp_all add: nd_def)
  from nf have dnb: "28 \<le> days_in_month ny nm" using days_in_month_bounds[of nm ny] by simp
  have bfb: "0 \<le> bf" "bf \<le> 6" by (simp_all add: bf_def) 
  have afb: "0 \<le> af" "af \<le> 6" by (simp_all add: af_def)
  let ?A = "[dp + 1 - bf..dp]" and ?B = "[1..nd]" and ?C = "[1..af]"
  have ml: "monthlen py pm = dp" using pf monthlen_eq[of pm py] by (simp add: dp_def)
  have i3: "itermonthdays3 6 y m =
      Inr (map (\<lambda>d. (py, pm, d)) ?A @ map (\<lambda>d. (y, m, d)) ?B @ map (\<lambda>d. (ny, nm, d)) ?C)"
    unfolding itermonthdays3_def monthrange_valid[OF assms(1-4)]
    by (simp add: Let_def pv nx py_range_def ml bf_def af_def nd_def)
  have dA: "dates_of (map (\<lambda>d. (py, pm, d)) ?A) = Inr (map (Date py pm) ?A)"
  proof (rule dates_of_map)
    show "?A \<noteq> [] \<longrightarrow> 1 \<le> py \<and> py \<le> 9999 \<and> 1 \<le> pm \<and> pm \<le> 12"
      using pf assms(5) by simp
    show "\<forall>d \<in> set ?A. 1 \<le> d \<and> d \<le> days_in_month py pm"
      using bfb dpb by (auto simp: dp_def)
  qed
  have dB: "dates_of (map (\<lambda>d. (y, m, d)) ?B) = Inr (map (Date y m) ?B)"
    by (rule dates_of_map) (use assms(1-4) in \<open>auto simp: nd_def\<close>)
  have dC: "dates_of (map (\<lambda>d. (ny, nm, d)) ?C) = Inr (map (Date ny nm) ?C)"
  proof (rule dates_of_map)
    show "?C \<noteq> [] \<longrightarrow> 1 \<le> ny \<and> ny \<le> 9999 \<and> 1 \<le> nm \<and> nm \<le> 12"
      using nf assms(6) by simp
    show "\<forall>d \<in> set ?C. 1 \<le> d \<and> d \<le> days_in_month ny nm"
      using afb dnb by auto
  qed
  let ?L = "map (Date py pm) ?A @ map (Date y m) ?B @ map (Date ny nm) ?C"
  have dL: "dates_of (map (\<lambda>d. (py, pm, d)) ?A @ map (\<lambda>d. (y, m, d)) ?B @ map (\<lambda>d. (ny, nm, d)) ?C)
              = Inr ?L"
    by (intro dates_of_append dA dB dC)
  have it: "itermonthdates 6 y m = Inr ?L"
    unfolding itermonthdates_def i3 by (simp only: sum.case dL)
  have kp: "days_before_year py + days_before_month py pm + dp + 1 = o1"
    using pf by (simp add: toordinal_Date dp_def o1_def)
  have k1: "days_before_year y + days_before_month y m + 1 = o1"
    by (simp add: toordinal_Date o1_def)
  have kn: "days_before_year ny + days_before_month ny nm = o1 + nd - 1"
    using nf k1 by (simp add: toordinal_Date nd_def)
  have "days_before_year py + days_before_month py pm + (dp + 1 - bf) = o1 - bf"
    and "days_before_year py + days_before_month py pm + dp = o1 - 1"
    using kp by simp_all
  then have tA: "map toordinal (map (Date py pm) ?A) = [o1 - bf..o1 - 1]"
    unfolding map_toordinal_Date by (simp only:)
  have "days_before_year y + days_before_month y m + 1 = o1"
    and "days_before_year y + days_before_month y m + nd = o1 + nd - 1"
    using k1 by simp_all
  then have tB: "map toordinal (map (Date y m) ?B) = [o1..o1 + nd - 1]"
    unfolding map_toordinal_Date by (simp only:)
  have "days_before_year ny + days_before_month ny nm + 1 = o1 + nd"
    and "days_before_year ny + days_before_month ny nm + af = o1 + nd + af - 1"
    using kn by simp_all
  then have tC: "map toordinal (map (Date ny nm) ?C) = [o1 + nd..o1 + nd + af - 1]"
    unfolding map_toordinal_Date by (simp only:)
  have "map toordinal ?L = [o1 - bf..o1 - 1] @ [o1..o1 + nd - 1] @ [o1 + nd..o1 + nd + af - 1]"
    by (simp only: map_append tA tB tC)
  also have "[o1..o1 + nd - 1] @ [o1 + nd..o1 + nd + af - 1] = [o1..o1 + nd + af - 1]"
    using upto_append[of o1 "o1 + nd - 1" "o1 + nd + af - 1"] ndb afb by simp
  also have "[o1 - bf..o1 - 1] @ [o1..o1 + nd + af - 1] = [o1 - bf..o1 + nd + af - 1]"
    using upto_append[of "o1 - bf" "o1 - 1" "o1 + nd + af - 1"] ndb afb bfb by simp
  finally have tL: "map toordinal ?L = [o1 - bf..o1 + nd + af - 1]" .
  have inm: "{d \<in> set ?L. d_month d = m} = Date y m ` {1..nd}"
    using pf nf by auto
  from dates_of_InrD[OF dL] have "\<forall>d \<in> set ?L. valid_date d" by blast
  with it tL inm show ?thesis by blast
qed

lemma weekday_total:
  assumes "1 \<le> m" "m \<le> 12"
  shows "\<exists>d1. weekday y m 1 = Inr d1"
proof -
  define y' where "y' = (if \<not> (MINYEAR \<le> y \<and> y \<le> MAXYEAR) then 2000 + y mod 400 else y)"
  have "0 \<le> y mod 400" "y mod 400 < 400" by simp_all
  then have "1 \<le> y'" "y' \<le> 9999"
    by (auto simp: y'_def MINYEAR_def MAXYEAR_def)
  moreover from days_in_month_bounds[OF assms, of y'] have "1 \<le> days_in_month y' m" by simp
  ultimately have "mk_date y' m 1 = Inr (Date y' m 1)" using assms by (simp add: mk_date_valid)
  then show ?thesis unfolding weekday_def y'_def[symmetric] by (simp add: Let_def)
qed

lemma itermonthdays3_shape:
  assumes "1 \<le> m" "m \<le> 12"
  shows "\<exists>A C. itermonthdays3 6 y m =
           Inr (A @ map (\<lambda>d. (y, m, d)) [1..days_in_month y m] @ C)"
proof -
  from weekday_total[OF assms, of y] obtain d1 where d1: "weekday y m 1 = Inr d1" by blast
  have "mdays ! nat m + (if m = 2 \<and> isleap y then 1 else 0) = days_in_month y m"
    using monthlen_eq[OF assms, of y] by (simp add: monthlen_def)
  with d1 assms have mr: "monthrange y m = Inr (d1, days_in_month y m)"
    by (simp add: monthrange_def)
  obtain py pm where pv: "prevmonth y m = (py, pm)" by (cases "prevmonth y m")
  obtain ny nm where nx: "nextmonth y m = (ny, nm)" by (cases "nextmonth y m")
  have "itermonthdays3 6 y m =
      Inr (map (\<lambda>d. (py, pm, d)) [monthlen py pm + 1 - (d1 - 6) mod 7..monthlen py pm] @
           map (\<lambda>d. (y, m, d)) [1..days_in_month y m] @
           map (\<lambda>d. (ny, nm, d)) [1..(6 - d1 - days_in_month y m) mod 7])"
    unfolding itermonthdays3_def mr by (simp add: Let_def pv nx py_range_def)
  then show ?thesis by blast
qed

lemma month_weeks_InrD:
  assumes "month_weeks y m = Inr weeks"
  shows "1 \<le> y \<and> y \<le> 9999 \<and> 1 \<le> m \<and> m \<le> 12 \<and>
         (\<exists>L. weeks = rows_of_7 L \<and>
              int (length L) = (date_weekday (Date y m 1) - 6) mod 7 + days_in_month y m +
                               (6 - date_weekday (Date y m 1) - days_in_month y m) mod 7)"
proof -
  from assms obtain L where it: "itermonthdates 6 y m = Inr L" and w: "weeks = rows_of_7 L"
    by (auto simp: month_weeks_def monthdatescalendar_def split: sum.splits)
  from it obtain ts where i3: "itermonthdays3 6 y m = Inr ts" and ds: "dates_of ts = Inr L"
    by (auto simp: itermonthdates_def split: sum.splits)
  from i3 have m: "1 \<le> m" "m \<le> 12"
    by (auto simp: itermonthdays3_def monthrange_def split: sum.splits if_splits)
  from itermonthdays3_shape[OF m, of y] i3 obtain A C where
    ts: "ts = A @ map (\<lambda>d. (y, m, d)) [1..days_in_month y m] @ C" by auto
  from days_in_month_bounds[OF m, of y] have "1 \<in> set [1..days_in_month y m]" by simp
  then have "(y, m, 1) \<in> set ts" unfolding ts by auto
  with dates_of_InrD[OF ds] have "mk_date y m 1 \<noteq> Inl ValueError" by fastforce
  then have y: "1 \<le> y" "y \<le> 9999"
    by (auto simp: mk_date_def MINYEAR_def MAXYEAR_def split: if_splits)
  obtain py pm where pv: "prevmonth y m = (py, pm)" by (cases "prevmonth y m")
  obtain ny nm where nx: "nextmonth y m = (ny, nm)" by (cases "nextmonth y m")
  define d1 where "d1 = date_weekday (Date y m 1)"
  define nd where "nd = days_in_month y m"
  define bf where "bf = (d1 - 6) mod 7"
  define af where "af = (6 - d1 - nd) mod 7"
  have b: "0 \<le> bf" "0 \<le> af" "0 \<le> nd"
    using days_in_month_bounds[OF m, of y] by (simp_all add: bf_def af_def nd_def)
  have "itermonthdays3 6 y m =
      Inr (map (\<lambda>d. (py, pm, d)) [monthlen py pm + 1 - bf..monthlen py pm] @
           map (\<lambda>d. (y, m, d)) [1..nd] @ map (\<lambda>d. (ny, nm, d)) [1..af])"
    unfolding itermonthdays3_def monthrange_valid[OF y m]
    by (simp add: Let_def pv nx py_range_def bf_def af_def nd_def d1_def)
  with i3 have "ts = map (\<lambda>d. (py, pm, d)) [monthlen py pm + 1 - bf..monthlen py pm] @
           map (\<lambda>d. (y, m, d)) [1..nd] @ map (\<lambda>d. (ny, nm, d)) [1..af]"
    by simp
  then have "int (length ts) = bf + nd + af" using b by simp
  then have "int (length ts) = (date_weekday (Date y m 1) - 6) mod 7 + days_in_month y m +
                               (6 - date_weekday (Date y m 1) - days_in_month y m) mod 7"
    by (simp add: bf_def af_def nd_def d1_def)
  with dates_of_InrD[OF ds] w y m show ?thesis by auto
qed

lemma grid_rows_arith:
  fixes d1 nd :: int
  assumes "0 \<le> d1" "d1 \<le> 6" "28 \<le> nd" "nd \<le> 31"
  defines "T \<equiv> (d1 - 6) mod 7 + nd + (6 - d1 - nd) mod 7"
  shows "T mod 7 = 0 \<and> (T = 28 \<or> T = 35 \<or> T = 42) \<and> (T = 28 \<longleftrightarrow> nd = 28 \<and> d1 = 6)"
proof -
  from assms(1,2) have d: "d1 = 0 \<or> d1 = 1 \<or> d1 = 2 \<or> d1 = 3 \<or> d1 = 4 \<or> d1 = 5 \<or> d1 = 6"
    by linarith
  from assms(3,4) have n: "nd = 28 \<or> nd = 29 \<or> nd = 30 \<or> nd = 31"
    by linarith
  from d n show ?thesis
    unfolding T_def by (elim disjE) simp_all
qed

text \<open>
  Claim C7, amended. Whenever the month grid is built, it has 4, 5 or 6 week rows, and
  it has exactly 4 precisely when the month has 28 days and its first day is a Sunday.
\<close>

theorem C7_week_row_count:
  assumes "month_weeks y m = Inr weeks"
  shows "(length weeks = 4 \<or> length weeks = 5 \<or> length weeks = 6) \<and>
         (length weeks = 4 \<longleftrightarrow> days_in_month y m = 28 \<and> date_weekday (Date y m 1) = 6)"
proof -
  define d1 where "d1 = date_weekday (Date y m 1)"
  define nd where "nd = days_in_month y m"
  define T where "T = (d1 - 6) mod 7 + nd + (6 - d1 - nd) mod 7"
  from month_weeks_InrD[OF assms] obtain L where m: "1 \<le> m" "m \<le> 12"
    and w: "weeks = rows_of_7 L" and l: "int (length L) = T"
    by (auto simp: T_def d1_def nd_def)
  have "0 \<le> d1" "d1 \<le> 6" by (simp_all add: d1_def date_weekday_def)
  moreover from days_in_month_bounds[OF m, of y] have "28 \<le> nd" "nd \<le> 31" by (simp_all add: nd_def)
  ultimately have a: "T mod 7 = 0 \<and> (T = 28 \<or> T = 35 \<or> T = 42) \<and> (T = 28 \<longleftrightarrow> nd = 28 \<and> d1 = 6)"
    unfolding T_def by (rule grid_rows_arith)
  define n where "n = length L div 7"
  from a l have "length L = 28 \<or> length L = 35 \<or> length L = 42" by linarith
  then have ln: "length L = 7 * n" and n: "n = 4 \<or> n = 5 \<or> n = 6" and n4: "n = 4 \<longleftrightarrow> length L = 28"
    by (auto simp: n_def)
  from rows_of_7_length[OF ln] w have lw: "length weeks = n" by simp
  from n4 l have "n = 4 \<longleftrightarrow> T = 28" by linarith
  with a n lw show ?thesis by (simp add: d1_def nd_def)
qed

lemma sunday_base: "(o1 - ((o1 + 6) mod 7 - 6) mod 7) mod 7 = (0::int)"
proof -
  have "((o1 + 6) mod 7 - 6) mod 7 = o1 mod 7"
    by (simp add: mod_diff_left_eq)
  then show ?thesis by (simp add: minus_mod_eq_mult_div)
qed

lemma column_weekday:
  assumes "(b::int) mod 7 = 0"
  shows "(b + int (7 * k + i) + 6) mod 7 = (6 + int i) mod 7"
proof -
  from assms obtain q where "b = 7 * q" by (auto simp: mod_eq_0_iff_dvd)
  then have "b + int (7 * k + i) + 6 = 7 * (q + int k) + (6 + int i)" by simp
  then show ?thesis by (simp only: mod_mult_self4)
qed

text \<open>
  Claim C4 as stated fails for January of year 1: the week of 1 January 0001 (a Monday)
  begins on a day before the first representable date, and building the grid raises
  \<open>ValueError\<close>.
\<close>

theorem C4_counterexample: "month_weeks 1 1 = Inl ValueError"
  by code_simp

text \<open>December of year 9999 fails the same way, on the trailing day 1 January 10000.\<close>

lemma month_weeks_9999_12: "month_weeks 9999 12 = Inl ValueError"
  by code_simp

text \<open>
  Claim C4, amended. For every year in 1..9999 and month in 1..12 other than January of
  year 1 and December of year 9999, the month grid is built; every week row has exactly
  7 dates, column \<open>i\<close> falling on weekday \<open>(6 + i) mod 7\<close> (column 0 is Sunday); the
  dates of the rows, read in order, are consecutive days, each one day after the one
  before, with no date repeated; and the dates of the grid whose month is the target
  month are exactly the days 1 to \<open>days_in_month\<close> of that month.
\<close>

theorem C4_month_grid:
  assumes "1 \<le> y" "y \<le> 9999" "1 \<le> m" "m \<le> 12" "\<not> (y = 1 \<and> m = 1)" "\<not> (y = 9999 \<and> m = 12)"
  shows "\<exists>weeks. month_weeks y m = Inr weeks \<and>
           (\<forall>row \<in> set weeks. length row = 7 \<and>
              (\<forall>i < 7. date_weekday (row ! i) = (6 + int i) mod 7)) \<and>
           (\<forall>i. Suc i < length (concat weeks) \<longrightarrow>
              days_between (concat weeks ! Suc i) (concat weeks ! i) = 1) \<and>
           distinct (concat weeks) \<and>
           (\<forall>d \<in> set (concat weeks). valid_date d) \<and>
           {d \<in> set (concat weeks). d_month d = m} = Date y m ` {1..days_in_month y m}"
proof -
  define o1 where "o1 = toordinal (Date y m 1)"
  define nd where "nd = days_in_month y m"
  define d1 where "d1 = date_weekday (Date y m 1)"
  define bf where "bf = (d1 - 6) mod 7"
  define af where "af = (6 - d1 - nd) mod 7"
  from itermonthdates_grid[OF assms] obtain L where
    it: "itermonthdates 6 y m = Inr L" and
    tL: "map toordinal L = [o1 - bf..o1 + nd + af - 1]" and
    inm: "{d \<in> set L. d_month d = m} = Date y m ` {1..nd}" and
    val: "\<forall>d \<in> set L. valid_date d"
    unfolding o1_def nd_def bf_def af_def d1_def by blast
  have d1b: "0 \<le> d1" "d1 \<le> 6" by (simp_all add: d1_def date_weekday_def)
  have ndb: "28 \<le> nd" "nd \<le> 31" using days_in_month_bounds[OF assms(3,4), of y] by (simp_all add: nd_def)
  from grid_rows_arith[OF d1b ndb] have T: "(bf + nd + af) mod 7 = 0" "0 \<le> bf + nd + af"
    by (auto simp: bf_def af_def)
  have "length (map toordinal L) = nat (bf + nd + af)"
    unfolding tL by (simp add: algebra_simps)
  then have lL: "int (length L) = bf + nd + af" using T(2) by simp
  define n where "n = length L div 7"
  from lL T(1) have "int (length L) mod 7 = 0" by simp
  then have "int (length L mod 7) = 0" by (simp add: of_nat_mod)
  then have "length L mod 7 = 0" by simp
  then have ln: "length L = 7 * n" by (auto simp: n_def)
  note rows = rows_of_7_length[OF ln]
  have base: "(o1 - bf) mod 7 = 0"
    unfolding bf_def d1_def date_weekday_def o1_def[symmetric] by (rule sunday_base)
  have ord: "toordinal (L ! j) = o1 - bf + int j" if "j < length L" for j
  proof -
    from that have "toordinal (L ! j) = map toordinal L ! j" by simp
    also have "\<dots> = o1 - bf + int j"
      unfolding tL using that lL by (subst nth_upto) simp_all
    finally show ?thesis .
  qed
  let ?weeks = "rows_of_7 L"
  have cw: "concat ?weeks = L" by (rule concat_rows_of_7)
  have mw: "month_weeks y m = Inr ?weeks"
    by (simp add: month_weeks_def monthdatescalendar_def it)
  have r: "length row = 7 \<and> (\<forall>i < 7. date_weekday (row ! i) = (6 + int i) mod 7)"
    if "row \<in> set ?weeks" for row
  proof -
    from that rows obtain k where k: "k < n" "row = take 7 (drop (7 * k) L)"
      by (metis in_set_conv_nth)
    from that rows have l7: "length row = 7" by blast
    have "date_weekday (row ! i) = (6 + int i) mod 7" if i: "i < 7" for i
    proof -
      from k i ln have j: "7 * k + i < length L" by simp
      with k i have "row ! i = L ! (7 * k + i)" by simp
      with ord[OF j] have "date_weekday (row ! i) = (o1 - bf + int (7 * k + i) + 6) mod 7"
        by (simp add: date_weekday_def)
      also have "\<dots> = (6 + int i) mod 7" using base by (rule column_weekday)
      finally show ?thesis .
    qed
    with l7 show ?thesis by blast
  qed
  have c: "days_between (L ! Suc i) (L ! i) = 1" if "Suc i < length L" for i
    using ord[of "Suc i"] ord[of i] that by (simp add: days_between_def)
  have "distinct (map toordinal L)" unfolding tL by simp
  then have d: "distinct L" by (rule distinct_map[THEN iffD1, THEN conjunct1])
  from mw r c d val inm show ?thesis
    unfolding nd_def by (intro exI[of _ ?weeks]) (simp add: cw)
qed

theorem C4_witness:
  "\<exists>weeks. month_weeks 2024 3 = Inr weeks \<and> length weeks = 6 \<and> distinct (concat weeks) \<and>
     {d \<in> set (concat weeks). d_month d = 3} = Date 2024 3 ` {1..31}"
proof -
  have l: "map_sum id length (month_weeks 2024 3) = Inr 6" by code_simp
  have d: "days_in_month 2024 3 = 31" by code_simp
  from C4_month_grid[of 2024 3] obtain weeks where
    w: "month_weeks 2024 3 = Inr weeks" "distinct (concat weeks)"
      "{d \<in> set (concat weeks). d_month d = 3} = Date 2024 3 ` {1..days_in_month 2024 3}"
    by auto
  with l d show ?thesis by auto
qed

text \<open>
  Claim C7 as stated fails: February 2015 has 28 days and begins on a Sunday, and its
  grid has exactly 4 week rows.
\<close>

theorem C7_counterexample:
  "month_weeks 2015 2 = Inr february_2015 \<and> length february_2015 = 4"
  by code_simp

theorem C7_witness:
  "month_weeks 2015 2 = Inr february_2015 \<and> length february_2015 = 4 \<and>
   days_in_month 2015 2 = 28 \<and> date_weekday (Date 2015 2 1) = 6"
proof -
  have h: "month_weeks 2015 2 = Inr february_2015" by code_simp
  have l: "length february_2015 = 4" by code_simp
  from C7_week_row_count[OF h] l
  have "days_in_month 2015 2 = 28 \<and> date_weekday (Date 2015 2 1) = 6" by blast
  with h l show ?thesis by blast
qed

section \<open>The slot allocator\<close>

lemma slot_overlap_iff: "slot_overlap segs sl sc ec = (\<not> eligible segs sl sc ec)"
  by (induction segs) (auto simp: eligible_def ranges_overlap_def)

lemma find_slot_in_upto_Some:
  "find_slot_in segs sc ec [a..b] = Some k \<longleftrightarrow>
     a \<le> k \<and> k \<le> b \<and> eligible segs k sc ec \<and> (\<forall>j. a \<le> j \<and> j < k \<longrightarrow> \<not> eligible segs j sc ec)"
proof (induction a b rule: upto.induct)
  case (1 i j)
  show ?case
  proof (cases "i \<le> j")
    case False
    then show ?thesis by simp
  next
    case True
    then have u: "[i..j] = i # [i + 1..j]" by (simp add: upto_rec1)
    show ?thesis
    proof (cases "eligible segs i sc ec")
      case True
      with u \<open>i \<le> j\<close> show ?thesis
        by (auto simp: slot_overlap_iff)
    next
      case False
      have ne: "i \<le> x \<longleftrightarrow> x = i \<or> i + 1 \<le> x" for x by auto
      from False u 1[OF True] show ?thesis
        by (auto simp: slot_overlap_iff ne)
    qed
  qed
qed

lemma find_slot_in_upto_None:
  "find_slot_in segs sc ec [a..b] = None \<longleftrightarrow> (\<forall>j. a \<le> j \<and> j \<le> b \<longrightarrow> \<not> eligible segs j sc ec)"
proof (induction a b rule: upto.induct)
  case (1 i j)
  show ?case
  proof (cases "i \<le> j")
    case False
    then show ?thesis by auto
  next
    case True
    then have u: "[i..j] = i # [i + 1..j]" by (simp add: upto_rec1)
    have ne: "i \<le> x \<longleftrightarrow> x = i \<or> i + 1 \<le> x" for x by auto
    show ?thesis using u 1[OF True] True
      by (auto simp: slot_overlap_iff ne)
  qed
qed

lemma ranges_overlap_sym: "ranges_overlap a b c d = ranges_overlap c d a b"
  by (auto simp: ranges_overlap_def)

lemma row_ok_snoc:
  "row_ok (row @ [s]) =
     (row_ok row \<and> eligible row (slot s) (start_col s) (end_col s))"
  by (induction row) (auto simp: eligible_def ranges_overlap_def)

lemma row_ok_nth_less:
  "row_ok row \<Longrightarrow> i < j \<Longrightarrow> j < length row \<Longrightarrow> slot (row ! i) = slot (row ! j) \<Longrightarrow>
     \<not> ranges_overlap (start_col (row ! i)) (end_col (row ! i))
                      (start_col (row ! j)) (end_col (row ! j))"
proof (induction row arbitrary: i j)
  case Nil
  then show ?case by simp
next
  case (Cons s rest)
  show ?case
  proof (cases i)
    case 0
    with Cons.prems obtain j' where j': "j = Suc j'" "j' < length rest"
      by (cases j) auto
    with 0 Cons.prems show ?thesis by auto
  next
    case (Suc i')
    with Cons.prems obtain j' where j': "j = Suc j'" "j' < length rest" "i' < j'"
      by (cases j) auto
    with Suc Cons.prems Cons.IH[of i' j'] show ?thesis by auto
  qed
qed

lemma row_ok_nth:
  assumes "row_ok row" "i < length row" "j < length row" "i \<noteq> j"
    "slot (row ! i) = slot (row ! j)"
  shows "\<not> ranges_overlap (start_col (row ! i)) (end_col (row ! i))
                          (start_col (row ! j)) (end_col (row ! j))"
proof (cases "i < j")
  case True
  with assms show ?thesis by (simp add: row_ok_nth_less)
next
  case False
  with assms have "j < i" by simp
  with assms row_ok_nth_less[of row j i] show ?thesis
    by (simp add: ranges_overlap_sym[of "start_col (row ! i)"])
qed

lemma row_ok_covers_distinct:
  "row_ok row \<Longrightarrow> distinct (map slot (filter (covers c) row))"
  by (induction row) (auto simp: covers_def ranges_overlap_def)

lemma slots_ok_covers_le_3:
  assumes "row_ok row" "slots_ok row"
  shows "length (filter (covers c) row) \<le> 3"
proof -
  let ?xs = "map slot (filter (covers c) row)"
  have d: "distinct ?xs" using assms(1) by (rule row_ok_covers_distinct)
  have "set ?xs \<subseteq> {0..2}" using assms(2) by (auto simp: slots_ok_def)
  then have "card (set ?xs) \<le> card {0..2::int}" by (intro card_mono) auto
  moreover from d have "card (set ?xs) = length ?xs" by (rule distinct_card)
  ultimately have "length ?xs \<le> 3" by simp
  then show ?thesis by simp
qed

lemma find_slot_Some:
  "find_slot segs sc ec n = Some k \<longleftrightarrow>
     0 \<le> k \<and> k < n \<and> eligible segs k sc ec \<and> (\<forall>j. 0 \<le> j \<and> j < k \<longrightarrow> \<not> eligible segs j sc ec)"
  unfolding find_slot_def py_range_def by (auto simp: find_slot_in_upto_Some)

lemma find_slot_None:
  "find_slot segs sc ec n = None \<longleftrightarrow> (\<forall>j. 0 \<le> j \<and> j < n \<longrightarrow> \<not> eligible segs j sc ec)"
  unfolding find_slot_def py_range_def by (auto simp: find_slot_in_upto_None)

lemma week_step_rows_ok:
  assumes "week_step ev wi week W = Inr W'" "rows_ok W"
  shows "rows_ok W' \<and> length W' = length W"
proof -
  have upd: "rows_ok (W[wi := W ! wi @ [s]])"
    if "wi < length W" "find_slot (W ! wi) (start_col s) (end_col s) 3 = Some (slot s)" for s
  proof -
    from that(1) assms(2) have "row_ok (W ! wi)" "slots_ok (W ! wi)"
      by (auto simp: rows_ok_def)
    with that(2) have "row_ok (W ! wi @ [s])" "slots_ok (W ! wi @ [s])"
      by (auto simp: row_ok_snoc find_slot_Some slots_ok_def)
    with assms(2) show ?thesis
      unfolding rows_ok_def by (metis insertE set_update_subset_insert subsetD)
  qed
  from assms show ?thesis
    unfolding week_step_def
    by (auto simp: Let_def upd split: list.splits if_splits option.splits)
qed

lemma weeks_loop_rows_ok:
  "weeks_loop ev iw W = Inr W' \<Longrightarrow> rows_ok W \<Longrightarrow> rows_ok W' \<and> length W' = length W"
proof (induction iw arbitrary: W)
  case Nil
  then show ?case by simp
next
  case (Cons a iw)
  obtain wi week where a: "a = (wi, week)" by (cases a)
  from Cons.prems a obtain W1 where s: "week_step ev wi week W = Inr W1"
    and r: "weeks_loop ev iw W1 = Inr W'"
    by (auto split: sum.splits)
  from week_step_rows_ok[OF s Cons.prems(2)] Cons.IH[OF r] show ?case by simp
qed

lemma events_loop_rows_ok:
  "events_loop evs weeks W = Inr W' \<Longrightarrow> rows_ok W \<Longrightarrow> rows_ok W' \<and> length W' = length W"
proof (induction evs arbitrary: W)
  case Nil
  then show ?case by simp
next
  case (Cons ev evs)
  from Cons.prems obtain W1 where s: "weeks_loop ev (enumerate 0 weeks) W = Inr W1"
    and r: "events_loop evs weeks W1 = Inr W'"
    by (auto split: sum.splits)
  from weeks_loop_rows_ok[OF s Cons.prems(2)] Cons.IH[OF r] show ?case by simp
qed

lemma rows_ok_empty: "rows_ok (replicate n [])"
  by (simp add: rows_ok_def slots_ok_def)

text \<open>
  Claim C1. In every week row produced by the slot allocator, two distinct segments
  (at different positions of the row) that have the same slot have column ranges
  \<open>[start_col, end_col]\<close> that do not overlap.
\<close>

theorem C1_same_slot_disjoint:
  assumes "events_loop prepared weeks (replicate (length weeks) []) = Inr week_segments"
    and "wi < length week_segments"
    and "i < length (week_segments ! wi)" and "j < length (week_segments ! wi)" and "i \<noteq> j"
    and "slot (week_segments ! wi ! i) = slot (week_segments ! wi ! j)"
  shows "\<not> ranges_overlap (start_col (week_segments ! wi ! i)) (end_col (week_segments ! wi ! i))
                          (start_col (week_segments ! wi ! j)) (end_col (week_segments ! wi ! j))"
proof -
  from events_loop_rows_ok[OF assms(1) rows_ok_empty] assms(2)
  have "row_ok (week_segments ! wi)" by (simp add: rows_ok_def)
  then show ?thesis using assms(3-6) by (rule row_ok_nth)
qed

theorem C1_witness:
  "events_loop [spanning (Date 2024 3 4) (Date 2024 3 5), spanning (Date 2024 3 7) (Date 2024 3 7)]
       [week_2024_03_03] (replicate (length [week_2024_03_03]) []) =
     Inr [[pill 1 2 0, pill 4 4 0]] \<and>
   \<not> ranges_overlap 1 2 4 4"
proof -
  have h: "events_loop [spanning (Date 2024 3 4) (Date 2024 3 5),
                        spanning (Date 2024 3 7) (Date 2024 3 7)]
       [week_2024_03_03] (replicate (length [week_2024_03_03]) []) =
     Inr [[pill 1 2 0, pill 4 4 0]]"
    by code_simp
  from C1_same_slot_disjoint[OF h, of 0 0 1] h show ?thesis
    by (simp add: pill_def)
qed

subsection \<open>The rows of the weeks, one by one\<close>

lemma week_step_row_step:
  assumes "week \<noteq> []" "wi < length W"
  shows "week_step ev wi week W = Inr (W[wi := row_step ev week (W ! wi)])"
proof -
  from assms(1) obtain w0 ws where w: "week = w0 # ws" by (cases week) auto
  have h: "hd week = w0" by (simp add: w)
  show ?thesis
  proof (cases "py_max (start_date ev) w0 \<le> py_min (end_date ev) (last week)")
    case False
    then show ?thesis
      unfolding week_step_def row_step_def h by (simp add: w Let_def)
  next
    case True
    then show ?thesis
      unfolding week_step_def row_step_def h using assms(2)
      by (simp add: w Let_def split: option.split)
  qed
qed

lemma weeks_loop_enumerate:
  assumes "\<forall>week \<in> set weeks. week \<noteq> []" "k + length weeks \<le> length W"
  shows "\<exists>W'. weeks_loop ev (enumerate k weeks) W = Inr W' \<and> length W' = length W \<and>
           (\<forall>i < length W. W' ! i =
              (if k \<le> i \<and> i < k + length weeks then row_step ev (weeks ! (i - k)) (W ! i)
               else W ! i))"
  using assms
proof (induction weeks arbitrary: k W)
  case Nil
  then show ?case by auto
next
  case (Cons week weeks)
  from Cons.prems have ne: "week \<noteq> []" and k: "k < length W" by simp_all
  define W1 where "W1 = W[k := row_step ev week (W ! k)]"
  from week_step_row_step[OF ne k] have s: "week_step ev k week W = Inr W1" by (simp add: W1_def)
  from Cons.prems have "\<forall>week \<in> set weeks. week \<noteq> []" "Suc k + length weeks \<le> length W1"
    by (simp_all add: W1_def)
  from Cons.IH[OF this] obtain W' where
    l: "weeks_loop ev (enumerate (Suc k) weeks) W1 = Inr W'" and len: "length W' = length W1" and
    nth: "\<forall>i < length W1. W' ! i =
              (if Suc k \<le> i \<and> i < Suc k + length weeks
               then row_step ev (weeks ! (i - Suc k)) (W1 ! i) else W1 ! i)"
    by blast
  have "weeks_loop ev (enumerate k (week # weeks)) W = Inr W'"
    using s l by simp
  moreover have "length W' = length W" using len by (simp add: W1_def)
  moreover have "W' ! i =
      (if k \<le> i \<and> i < k + length (week # weeks)
       then row_step ev ((week # weeks) ! (i - k)) (W ! i) else W ! i)" if i: "i < length W" for i
  proof (cases "i = k")
    case True
    with nth i k show ?thesis by (simp add: W1_def)
  next
    case False
    with nth i show ?thesis by (auto simp: W1_def nth_Cons' Suc_diff_Suc)
  qed
  ultimately show ?case by blast
qed

lemma events_loop_rows:
  assumes "\<forall>week \<in> set weeks. week \<noteq> []" "length W = length weeks"
  shows "\<exists>W'. events_loop evs weeks W = Inr W' \<and> length W' = length weeks \<and>
           (\<forall>i < length weeks. W' ! i = foldl (\<lambda>row ev. row_step ev (weeks ! i) row) (W ! i) evs)"
  using assms(2)
proof (induction evs arbitrary: W)
  case Nil
  then show ?case by simp
next
  case (Cons ev evs)
  from Cons.prems have "0 + length weeks \<le> length W" by simp
  from weeks_loop_enumerate[OF assms(1) this, of ev] Cons.prems obtain W1 where
    l: "weeks_loop ev (enumerate 0 weeks) W = Inr W1" and len: "length W1 = length weeks" and
    nth: "\<forall>i < length weeks. W1 ! i = row_step ev (weeks ! i) (W ! i)"
    by auto
  from Cons.IH[OF len] obtain W' where
    e: "events_loop evs weeks W1 = Inr W'" and len': "length W' = length weeks" and
    nth': "\<forall>i < length weeks. W' ! i = foldl (\<lambda>row ev. row_step ev (weeks ! i) row) (W1 ! i) evs"
    by blast
  from l e have "events_loop (ev # evs) weeks W = Inr W'" by simp
  with len' nth nth' show ?case by simp
qed

lemma row_step_single_day:
  assumes "start_date p = d" "end_date p = d"
  shows "row_step p week row =
     (if hd week \<le> d \<and> d \<le> last week then
        (case find_slot row (days_between d (hd week)) (days_between d (hd week)) 3 of
           None \<Rightarrow> row
         | Some sl \<Rightarrow>
             row @ [\<lparr>start_col = days_between d (hd week), end_col = days_between d (hd week),
                     span = 1, slot = sl, seg_summary = summary p, seg_color_id = color_id p\<rparr>])
      else row)"
proof (cases "hd week \<le> d \<and> d \<le> last week")
  case True
  then have "max d (hd week) = d" "min d (last week) = d" by (auto simp: max_def min_def)
  moreover have "days_between d d = 0" by (simp add: days_between_def)
  ultimately show ?thesis
    unfolding row_step_def assms py_max_eq py_min_eq using True
    by (simp add: Let_def split: option.split)
next
  case False
  then have n: "\<not> max d (hd week) \<le> min d (last week)" by auto
  show ?thesis
    unfolding row_step_def assms py_max_eq py_min_eq
    by (simp only: Let_def n False if_False)
qed

lemma find_slot_single_day:
  assumes "start_col s0 = c" "end_col s0 = c" "slot s0 = 0"
    and "start_col s1 = c" "end_col s1 = c" "slot s1 = 1"
    and "start_col s2 = c" "end_col s2 = c" "slot s2 = 2"
  shows "find_slot [] c c 3 = Some 0" "find_slot [s0] c c 3 = Some 1"
    "find_slot [s0, s1] c c 3 = Some 2" "find_slot [s0, s1, s2] c c 3 = None"
proof -
  have u: "[0..3 - 1] = [0, 1, (2::int)]" by (simp add: upto_rec1)
  show "find_slot [] c c 3 = Some 0" "find_slot [s0] c c 3 = Some 1"
    "find_slot [s0, s1] c c 3 = Some 2" "find_slot [s0, s1, s2] c c 3 = None"
    unfolding find_slot_def py_range_def u using assms by simp_all
qed

text \<open>
  Claim C2. \<open>find_slot\<close> returns the smallest index among 0, 1, 2 that is eligible for
  the new segment's columns, and \<open>None\<close> exactly when none is. The week step either
  leaves the rows unchanged or appends to row \<open>wi\<close> one segment whose slot is the one
  \<open>find_slot\<close> gave for its columns; when no slot is eligible it returns the rows
  unchanged, without an error; and when the event meets the week and \<open>find_slot\<close> gives
  a slot, the segment with that slot and the event's columns is appended to the row.
  For any four prepared single-day events on the same date \<open>d\<close> and any non-empty week
  rows, the allocator returns, in every week that contains \<open>d\<close>, exactly three
  segments, those of the first three events in slots 0, 1, 2, and none for the fourth;
  the other weeks stay empty. Four such events on 5 March 2024, run through the whole
  layout, give the three segments in the second row.
\<close>

theorem C2_first_fit_slot:
  "(find_slot segs sc ec 3 = Some k \<longleftrightarrow>
      0 \<le> k \<and> k < 3 \<and> eligible segs k sc ec \<and>
      (\<forall>j. 0 \<le> j \<and> j < k \<longrightarrow> \<not> eligible segs j sc ec)) \<and>
   (find_slot segs sc ec 3 = None \<longleftrightarrow> (\<forall>j. 0 \<le> j \<and> j < 3 \<longrightarrow> \<not> eligible segs j sc ec)) \<and>
   (week_step ev wi week W = Inr W' \<longrightarrow>
      W' = W \<or>
      (\<exists>seg. W' = W[wi := W ! wi @ [seg]] \<and> wi < length W \<and>
         find_slot (W ! wi) (start_col seg) (end_col seg) 3 = Some (slot seg))) \<and>
   (week \<noteq> [] \<and> wi < length W \<and>
      (let seg_start = py_max (start_date ev) (hd week);
           seg_end = py_min (end_date ev) (last week);
           c = days_between seg_start (hd week)
       in find_slot (W ! wi) c (c + (days_between seg_end seg_start + 1) - 1) 3 = None)
      \<longrightarrow> week_step ev wi week W = Inr W) \<and>
   (week \<noteq> [] \<and> wi < length W \<and>
      (let seg_start = py_max (start_date ev) (hd week);
           seg_end = py_min (end_date ev) (last week);
           c = days_between seg_start (hd week)
       in seg_start \<le> seg_end \<and>
          find_slot (W ! wi) c (c + (days_between seg_end seg_start + 1) - 1) 3 = Some sl)
      \<longrightarrow> week_step ev wi week W =
            Inr (let seg_start = py_max (start_date ev) (hd week);
                     seg_end = py_min (end_date ev) (last week);
                     c = days_between seg_start (hd week)
                 in W[wi := W ! wi @
                       [\<lparr>start_col = c, end_col = c + (days_between seg_end seg_start + 1) - 1,
                         span = days_between seg_end seg_start + 1, slot = sl,
                         seg_summary = summary ev, seg_color_id = color_id ev\<rparr>]])) \<and>
   ((\<forall>week \<in> set weeks. week \<noteq> []) \<and>
    start_date pa = d \<and> end_date pa = d \<and> start_date pb = d \<and> end_date pb = d \<and>
    start_date pc = d \<and> end_date pc = d \<and> start_date pd = d \<and> end_date pd = d
      \<longrightarrow> (\<exists>rows. events_loop [pa, pb, pc, pd] weeks (replicate (length weeks) []) = Inr rows \<and>
             length rows = length weeks \<and>
             (\<forall>i < length weeks.
                rows ! i =
                  (if hd (weeks ! i) \<le> d \<and> d \<le> last (weeks ! i) then
                     [\<lparr>start_col = days_between d (hd (weeks ! i)),
                       end_col = days_between d (hd (weeks ! i)), span = 1, slot = 0,
                       seg_summary = summary pa, seg_color_id = color_id pa\<rparr>,
                      \<lparr>start_col = days_between d (hd (weeks ! i)),
                       end_col = days_between d (hd (weeks ! i)), span = 1, slot = 1,
                       seg_summary = summary pb, seg_color_id = color_id pb\<rparr>,
                      \<lparr>start_col = days_between d (hd (weeks ! i)),
                       end_col = days_between d (hd (weeks ! i)), span = 1, slot = 2,
                       seg_summary = summary pc, seg_color_id = color_id pc\<rparr>]
                   else [])))) \<and>
   build_week_segments P 2024 3
       [all_day (Date 2024 3 5) (Date 2024 3 5), all_day (Date 2024 3 5) (Date 2024 3 5),
        all_day (Date 2024 3 5) (Date 2024 3 5), all_day (Date 2024 3 5) (Date 2024 3 5)] =
     Inr [[], [pill 2 2 0, pill 2 2 1, pill 2 2 2], [], [], [], []]"
proof (intro conjI)
  show "find_slot segs sc ec 3 = Some k \<longleftrightarrow>
      0 \<le> k \<and> k < 3 \<and> eligible segs k sc ec \<and>
      (\<forall>j. 0 \<le> j \<and> j < k \<longrightarrow> \<not> eligible segs j sc ec)"
    by (rule find_slot_Some)
  show "find_slot segs sc ec 3 = None \<longleftrightarrow> (\<forall>j. 0 \<le> j \<and> j < 3 \<longrightarrow> \<not> eligible segs j sc ec)"
    by (rule find_slot_None)
  show "week_step ev wi week W = Inr W' \<longrightarrow>
      W' = W \<or>
      (\<exists>seg. W' = W[wi := W ! wi @ [seg]] \<and> wi < length W \<and>
         find_slot (W ! wi) (start_col seg) (end_col seg) 3 = Some (slot seg))"
    unfolding week_step_def
    by (auto simp: Let_def split: list.splits if_splits option.splits)
  show "week \<noteq> [] \<and> wi < length W \<and>
      (let seg_start = py_max (start_date ev) (hd week);
           seg_end = py_min (end_date ev) (last week);
           c = days_between seg_start (hd week)
       in find_slot (W ! wi) c (c + (days_between seg_end seg_start + 1) - 1) 3 = None)
      \<longrightarrow> week_step ev wi week W = Inr W"
    unfolding week_step_def
    by (auto simp: Let_def split: list.splits)
  show "week \<noteq> [] \<and> wi < length W \<and>
      (let seg_start = py_max (start_date ev) (hd week);
           seg_end = py_min (end_date ev) (last week);
           c = days_between seg_start (hd week)
       in seg_start \<le> seg_end \<and>
          find_slot (W ! wi) c (c + (days_between seg_end seg_start + 1) - 1) 3 = Some sl)
      \<longrightarrow> week_step ev wi week W =
            Inr (let seg_start = py_max (start_date ev) (hd week);
                     seg_end = py_min (end_date ev) (last week);
                     c = days_between seg_start (hd week)
                 in W[wi := W ! wi @
                       [\<lparr>start_col = c, end_col = c + (days_between seg_end seg_start + 1) - 1,
                         span = days_between seg_end seg_start + 1, slot = sl,
                         seg_summary = summary ev, seg_color_id = color_id ev\<rparr>]])"
    unfolding week_step_def
    by (auto simp: Let_def split: list.splits)
  show "(\<forall>week \<in> set weeks. week \<noteq> []) \<and>
    start_date pa = d \<and> end_date pa = d \<and> start_date pb = d \<and> end_date pb = d \<and>
    start_date pc = d \<and> end_date pc = d \<and> start_date pd = d \<and> end_date pd = d
      \<longrightarrow> (\<exists>rows. events_loop [pa, pb, pc, pd] weeks (replicate (length weeks) []) = Inr rows \<and>
             length rows = length weeks \<and>
             (\<forall>i < length weeks.
                rows ! i =
                  (if hd (weeks ! i) \<le> d \<and> d \<le> last (weeks ! i) then
                     [\<lparr>start_col = days_between d (hd (weeks ! i)),
                       end_col = days_between d (hd (weeks ! i)), span = 1, slot = 0,
                       seg_summary = summary pa, seg_color_id = color_id pa\<rparr>,
                      \<lparr>start_col = days_between d (hd (weeks ! i)),
                       end_col = days_between d (hd (weeks ! i)), span = 1, slot = 1,
                       seg_summary = summary pb, seg_color_id = color_id pb\<rparr>,
                      \<lparr>start_col = days_between d (hd (weeks ! i)),
                       end_col = days_between d (hd (weeks ! i)), span = 1, slot = 2,
                       seg_summary = summary pc, seg_color_id = color_id pc\<rparr>]
                   else [])))"
  proof (intro impI)
    assume h: "(\<forall>week \<in> set weeks. week \<noteq> []) \<and>
      start_date pa = d \<and> end_date pa = d \<and> start_date pb = d \<and> end_date pb = d \<and>
      start_date pc = d \<and> end_date pc = d \<and> start_date pd = d \<and> end_date pd = d"
    then have ne: "\<forall>week \<in> set weeks. week \<noteq> []" by blast
    have len: "length (replicate (length weeks) ([]::segment list)) = length weeks" by simp
    from events_loop_rows[OF ne len, of "[pa, pb, pc, pd]"] obtain rows where
      r: "events_loop [pa, pb, pc, pd] weeks (replicate (length weeks) []) = Inr rows"
        "length rows = length weeks" and
      n: "\<forall>i < length weeks. rows ! i =
            foldl (\<lambda>row ev. row_step ev (weeks ! i) row) (replicate (length weeks) [] ! i)
              [pa, pb, pc, pd]"
      by blast
    have "rows ! i =
        (if hd (weeks ! i) \<le> d \<and> d \<le> last (weeks ! i) then
           [\<lparr>start_col = days_between d (hd (weeks ! i)),
             end_col = days_between d (hd (weeks ! i)), span = 1, slot = 0,
             seg_summary = summary pa, seg_color_id = color_id pa\<rparr>,
            \<lparr>start_col = days_between d (hd (weeks ! i)),
             end_col = days_between d (hd (weeks ! i)), span = 1, slot = 1,
             seg_summary = summary pb, seg_color_id = color_id pb\<rparr>,
            \<lparr>start_col = days_between d (hd (weeks ! i)),
             end_col = days_between d (hd (weeks ! i)), span = 1, slot = 2,
             seg_summary = summary pc, seg_color_id = color_id pc\<rparr>]
         else [])" if i: "i < length weeks" for i
    proof -
      define w where "w = weeks ! i"
      define c where "c = days_between d (hd w)"
      define a1 where "a1 = \<lparr>start_col = c, end_col = c, span = 1, slot = 0,
                             seg_summary = summary pa, seg_color_id = color_id pa\<rparr>"
      define a2 where "a2 = \<lparr>start_col = c, end_col = c, span = 1, slot = 1,
                             seg_summary = summary pb, seg_color_id = color_id pb\<rparr>"
      define a3 where "a3 = \<lparr>start_col = c, end_col = c, span = 1, slot = 2,
                             seg_summary = summary pc, seg_color_id = color_id pc\<rparr>"
      have fs: "find_slot [] c c 3 = Some 0" "find_slot [a1] c c 3 = Some 1"
        "find_slot [a1, a2] c c 3 = Some 2" "find_slot [a1, a2, a3] c c 3 = None"
        using find_slot_single_day[of a1 c a2 a3] by (simp_all add: a1_def a2_def a3_def)
      from n i have f: "rows ! i = row_step pd w (row_step pc w (row_step pb w (row_step pa w [])))"
        by (simp add: w_def)
      have "rows ! i = (if hd w \<le> d \<and> d \<le> last w then [a1, a2, a3] else [])"
      proof (cases "hd w \<le> d \<and> d \<le> last w")
        case True
        from h True fs(1) have "row_step pa w [] = [a1]"
          by (subst row_step_single_day[of _ d]) (simp_all add: c_def[symmetric] a1_def)
        moreover from h True fs(2) have "row_step pb w [a1] = [a1, a2]"
          by (subst row_step_single_day[of _ d]) (simp_all add: c_def[symmetric] a2_def)
        moreover from h True fs(3) have "row_step pc w [a1, a2] = [a1, a2, a3]"
          by (subst row_step_single_day[of _ d]) (simp_all add: c_def[symmetric] a3_def)
        moreover from h True fs(4) have "row_step pd w [a1, a2, a3] = [a1, a2, a3]"
          by (subst row_step_single_day[of _ d]) (simp_all add: c_def[symmetric])
        ultimately show ?thesis using f True by simp
      next
        case False
        from h False have "row_step p w row = row"
          if "p = pa \<or> p = pb \<or> p = pc \<or> p = pd" for p row
          using that by (subst row_step_single_day[of _ d]) auto
        with f False show ?thesis by simp
      qed
      then show ?thesis
        unfolding a1_def a2_def a3_def c_def w_def .
    qed
    with r show "\<exists>rows. events_loop [pa, pb, pc, pd] weeks (replicate (length weeks) []) = Inr rows \<and>
             length rows = length weeks \<and>
             (\<forall>i < length weeks.
                rows ! i =
                  (if hd (weeks ! i) \<le> d \<and> d \<le> last (weeks ! i) then
                     [\<lparr>start_col = days_between d (hd (weeks ! i)),
                       end_col = days_between d (hd (weeks ! i)), span = 1, slot = 0,
                       seg_summary = summary pa, seg_color_id = color_id pa\<rparr>,
                      \<lparr>start_col = days_between d (hd (weeks ! i)),
                       end_col = days_between d (hd (weeks ! i)), span = 1, slot = 1,
                       seg_summary = summary pb, seg_color_id = color_id pb\<rparr>,
                      \<lparr>start_col = days_between d (hd (weeks ! i)),
                       end_col = days_between d (hd (weeks ! i)), span = 1, slot = 2,
                       seg_summary = summary pc, seg_color_id = color_id pc\<rparr>]
                   else []))"
      by blast
  qed
  show "build_week_segments P 2024 3
       [all_day (Date 2024 3 5) (Date 2024 3 5), all_day (Date 2024 3 5) (Date 2024 3 5),
        all_day (Date 2024 3 5) (Date 2024 3 5), all_day (Date 2024 3 5) (Date 2024 3 5)] =
     Inr [[], [pill 2 2 0, pill 2 2 1, pill 2 2 2], [], [], [], []]"
    by code_simp
qed


theorem C2_witness:
  "find_slot [pill 2 2 0, pill 2 2 1] 2 2 3 = Some 2 \<and>
   eligible [pill 2 2 0, pill 2 2 1] 2 2 2 \<and>
   \<not> eligible [pill 2 2 0, pill 2 2 1] 1 2 2 \<and>
   find_slot [pill 2 2 0, pill 2 2 1, pill 2 2 2] 2 2 3 = None \<and>
   week_step (spanning (Date 2024 3 5) (Date 2024 3 5)) 0 week_2024_03_03
       [[pill 2 2 0, pill 2 2 1, pill 2 2 2]] = Inr [[pill 2 2 0, pill 2 2 1, pill 2 2 2]] \<and>
   week_step (spanning (Date 2024 3 5) (Date 2024 3 5)) 0 week_2024_03_03 [[pill 2 2 0]] =
     Inr [[pill 2 2 0, pill 2 2 1]] \<and>
   (\<exists>rows. events_loop
        [spanning (Date 2024 3 5) (Date 2024 3 5), spanning (Date 2024 3 5) (Date 2024 3 5),
         spanning (Date 2024 3 5) (Date 2024 3 5), spanning (Date 2024 3 5) (Date 2024 3 5)]
        [week_2024_03_03] (replicate (length [week_2024_03_03]) []) = Inr rows \<and>
      rows ! 0 = [pill 2 2 0, pill 2 2 1, pill 2 2 2])"
proof -
  let ?p = "spanning (Date 2024 3 5) (Date 2024 3 5)"
  note T = C2_first_fit_slot[where segs = "[pill 2 2 0, pill 2 2 1]" and sc = 2 and ec = 2
      and k = 2 and ev = ?p and wi = 0 and week = week_2024_03_03 and sl = 1
      and weeks = "[week_2024_03_03]" and d = "Date 2024 3 5"
      and pa = ?p and pb = ?p and pc = ?p and pd = ?p]
  have a: "find_slot [pill 2 2 0, pill 2 2 1] 2 2 3 = Some 2" by code_simp
  have b: "find_slot [pill 2 2 0, pill 2 2 1, pill 2 2 2] 2 2 3 = None" by code_simp
  from T[THEN conjunct1] a
  have el: "eligible [pill 2 2 0, pill 2 2 1] 2 2 2"
    and nel: "\<forall>j. 0 \<le> j \<and> j < 2 \<longrightarrow> \<not> eligible [pill 2 2 0, pill 2 2 1] j 2 2"
    by blast+
  from nel have nel1: "\<not> eligible [pill 2 2 0, pill 2 2 1] 1 2 2" by simp
  have c: "week_2024_03_03 \<noteq> [] \<and> (0::nat) < length [[pill 2 2 0, pill 2 2 1, pill 2 2 2]] \<and>
      (let seg_start = py_max (start_date ?p) (hd week_2024_03_03);
           seg_end = py_min (end_date ?p) (last week_2024_03_03);
           c = days_between seg_start (hd week_2024_03_03)
       in find_slot ([[pill 2 2 0, pill 2 2 1, pill 2 2 2]] ! 0) c
            (c + (days_between seg_end seg_start + 1) - 1) 3 = None)"
    by code_simp
  have 1: "week_step ?p 0 week_2024_03_03 [[pill 2 2 0, pill 2 2 1, pill 2 2 2]] =
       Inr [[pill 2 2 0, pill 2 2 1, pill 2 2 2]]"
    by (rule T[where W = "[[pill 2 2 0, pill 2 2 1, pill 2 2 2]]",
          THEN conjunct2, THEN conjunct2, THEN conjunct2, THEN conjunct1, THEN mp]) (rule c)
  have e: "week_2024_03_03 \<noteq> [] \<and> (0::nat) < length [[pill 2 2 0]] \<and>
      (let seg_start = py_max (start_date ?p) (hd week_2024_03_03);
           seg_end = py_min (end_date ?p) (last week_2024_03_03);
           c = days_between seg_start (hd week_2024_03_03)
       in seg_start \<le> seg_end \<and>
          find_slot ([[pill 2 2 0]] ! 0) c (c + (days_between seg_end seg_start + 1) - 1) 3 = Some 1)"
    by code_simp
  have v: "(let seg_start = py_max (start_date ?p) (hd week_2024_03_03);
                seg_end = py_min (end_date ?p) (last week_2024_03_03);
                c = days_between seg_start (hd week_2024_03_03)
            in [[pill 2 2 0]][0 := [[pill 2 2 0]] ! 0 @
                  [\<lparr>start_col = c, end_col = c + (days_between seg_end seg_start + 1) - 1,
                    span = days_between seg_end seg_start + 1, slot = 1,
                    seg_summary = summary ?p, seg_color_id = color_id ?p\<rparr>]]) =
           [[pill 2 2 0, pill 2 2 1]]"
    by code_simp
  have 2: "week_step ?p 0 week_2024_03_03 [[pill 2 2 0]] = Inr [[pill 2 2 0, pill 2 2 1]]"
    using T[where W = "[[pill 2 2 0]]",
          THEN conjunct2, THEN conjunct2, THEN conjunct2, THEN conjunct2, THEN conjunct1,
          THEN mp, OF e]
    unfolding v .
  have ne: "(\<forall>week \<in> set [week_2024_03_03]. week \<noteq> []) \<and>
      start_date ?p = Date 2024 3 5 \<and> end_date ?p = Date 2024 3 5 \<and>
      start_date ?p = Date 2024 3 5 \<and> end_date ?p = Date 2024 3 5 \<and>
      start_date ?p = Date 2024 3 5 \<and> end_date ?p = Date 2024 3 5 \<and>
      start_date ?p = Date 2024 3 5 \<and> end_date ?p = Date 2024 3 5"
    by (simp add: week_2024_03_03_def spanning_def)
  have hl: "hd ([week_2024_03_03] ! 0) \<le> Date 2024 3 5 \<and> Date 2024 3 5 \<le> last ([week_2024_03_03] ! 0)"
    by code_simp
  have pl: "[\<lparr>start_col = days_between (Date 2024 3 5) (hd ([week_2024_03_03] ! 0)),
              end_col = days_between (Date 2024 3 5) (hd ([week_2024_03_03] ! 0)), span = 1, slot = 0,
              seg_summary = summary ?p, seg_color_id = color_id ?p\<rparr>,
             \<lparr>start_col = days_between (Date 2024 3 5) (hd ([week_2024_03_03] ! 0)),
              end_col = days_between (Date 2024 3 5) (hd ([week_2024_03_03] ! 0)), span = 1, slot = 1,
              seg_summary = summary ?p, seg_color_id = color_id ?p\<rparr>,
             \<lparr>start_col = days_between (Date 2024 3 5) (hd ([week_2024_03_03] ! 0)),
              end_col = days_between (Date 2024 3 5) (hd ([week_2024_03_03] ! 0)), span = 1, slot = 2,
              seg_summary = summary ?p, seg_color_id = color_id ?p\<rparr>] =
            [pill 2 2 0, pill 2 2 1, pill 2 2 2]"
    by code_simp
  from T[THEN conjunct2, THEN conjunct2, THEN conjunct2, THEN conjunct2, THEN conjunct2,
         THEN conjunct1, THEN mp, OF ne]
  obtain rows where r: "events_loop [?p, ?p, ?p, ?p] [week_2024_03_03]
        (replicate (length [week_2024_03_03]) []) = Inr rows"
    and n: "\<forall>i < length [week_2024_03_03]. rows ! i =
       (if hd ([week_2024_03_03] ! i) \<le> Date 2024 3 5 \<and> Date 2024 3 5 \<le> last ([week_2024_03_03] ! i)
        then [\<lparr>start_col = days_between (Date 2024 3 5) (hd ([week_2024_03_03] ! i)),
              end_col = days_between (Date 2024 3 5) (hd ([week_2024_03_03] ! i)), span = 1, slot = 0,
              seg_summary = summary ?p, seg_color_id = color_id ?p\<rparr>,
             \<lparr>start_col = days_between (Date 2024 3 5) (hd ([week_2024_03_03] ! i)),
              end_col = days_between (Date 2024 3 5) (hd ([week_2024_03_03] ! i)), span = 1, slot = 1,
              seg_summary = summary ?p, seg_color_id = color_id ?p\<rparr>,
             \<lparr>start_col = days_between (Date 2024 3 5) (hd ([week_2024_03_03] ! i)),
              end_col = days_between (Date 2024 3 5) (hd ([week_2024_03_03] ! i)), span = 1, slot = 2,
              seg_summary = summary ?p, seg_color_id = color_id ?p\<rparr>]
        else [])"
    by (elim exE conjE)
  from n have "rows ! 0 =
       (if hd ([week_2024_03_03] ! 0) \<le> Date 2024 3 5 \<and> Date 2024 3 5 \<le> last ([week_2024_03_03] ! 0)
        then [pill 2 2 0, pill 2 2 1, pill 2 2 2] else [])"
    unfolding pl[symmetric] by (elim allE[of _ 0]) simp
  with hl have "rows ! 0 = [pill 2 2 0, pill 2 2 1, pill 2 2 2]"
    by (simp only: if_True simp_thms)
  with r have 3: "\<exists>rows. events_loop [?p, ?p, ?p, ?p] [week_2024_03_03]
        (replicate (length [week_2024_03_03]) []) = Inr rows \<and>
      rows ! 0 = [pill 2 2 0, pill 2 2 1, pill 2 2 2]"
    by blast
  from a el nel1 b 1 2 3 show ?thesis by (intro conjI)
qed

text \<open>
  Claim C6 as stated (at most three segments in a week row) fails: four single-day
  events on four different days of one week all land in slot 0 of the same row.
\<close>

theorem C6_counterexample:
  "events_loop [spanning (Date 2024 3 4) (Date 2024 3 4), spanning (Date 2024 3 5) (Date 2024 3 5),
                spanning (Date 2024 3 6) (Date 2024 3 6), spanning (Date 2024 3 7) (Date 2024 3 7)]
       [week_2024_03_03] (replicate (length [week_2024_03_03]) []) =
     Inr [[pill 1 1 0, pill 2 2 0, pill 3 3 0, pill 4 4 0]] \<and>
   \<not> length [pill 1 1 0, pill 2 2 0, pill 3 3 0, pill 4 4 0] \<le> 3"
  by code_simp

text \<open>
  Claim C6, amended. In every week row, every slot is 0, 1 or 2, and for every day
  column at most three segments of the row cover that column.
\<close>

theorem C6_at_most_three_per_column:
  assumes "events_loop prepared weeks (replicate (length weeks) []) = Inr week_segments"
    and "row \<in> set week_segments"
  shows "length (filter (\<lambda>seg. start_col seg \<le> c \<and> c \<le> end_col seg) row) \<le> 3 \<and>
         (\<forall>seg \<in> set row. 0 \<le> slot seg \<and> slot seg < 3)"
proof -
  from events_loop_rows_ok[OF assms(1) rows_ok_empty] assms(2)
  have "row_ok row" "slots_ok row" by (simp_all add: rows_ok_def)
  then show ?thesis
    using slots_ok_covers_le_3[of row c] by (simp add: covers_def[abs_def] slots_ok_def)
qed

theorem C6_witness:
  "events_loop [spanning (Date 2024 3 5) (Date 2024 3 5), spanning (Date 2024 3 5) (Date 2024 3 5),
                spanning (Date 2024 3 5) (Date 2024 3 5), spanning (Date 2024 3 5) (Date 2024 3 5)]
       [week_2024_03_03] (replicate (length [week_2024_03_03]) []) =
     Inr [[pill 2 2 0, pill 2 2 1, pill 2 2 2]] \<and>
   length (filter (\<lambda>seg. start_col seg \<le> 2 \<and> 2 \<le> end_col seg)
             [pill 2 2 0, pill 2 2 1, pill 2 2 2]) \<le> 3"
proof -
  have h: "events_loop [spanning (Date 2024 3 5) (Date 2024 3 5),
                spanning (Date 2024 3 5) (Date 2024 3 5),
                spanning (Date 2024 3 5) (Date 2024 3 5), spanning (Date 2024 3 5) (Date 2024 3 5)]
       [week_2024_03_03] (replicate (length [week_2024_03_03]) []) =
     Inr [[pill 2 2 0, pill 2 2 1, pill 2 2 2]]"
    by code_simp
  from C6_at_most_three_per_column[OF h, of "[pill 2 2 0, pill 2 2 1, pill 2 2 2]" 2] h
  show ?thesis by simp
qed

section \<open>Pill text\<close>

text \<open>
  Claim C9. A title longer than 20 characters is displayed as its first 17 characters
  followed by three dots, 20 characters in all; a title of at most 20 characters is
  displayed unchanged.
\<close>

theorem C9_title_truncation:
  "(length title > 20 \<longrightarrow>
      pill_text title = take 17 title @ py_str ''...'' \<and> length (pill_text title) = 20) \<and>
   (length title \<le> 20 \<longrightarrow> pill_text title = title)"
  by (auto simp: pill_text_def max_chars_def py_str_def)

theorem C9_witness:
  "length (py_str ''abcdefghijklmnopqrstuvwxyz0123'') > 20 \<and>
   pill_text (py_str ''abcdefghijklmnopqrstuvwxyz0123'') = py_str ''abcdefghijklmnopq...'' \<and>
   length (pill_text (py_str ''abcdefghijklmnopqrstuvwxyz0123'')) = 20"
proof -
  have h: "length (py_str ''abcdefghijklmnopqrstuvwxyz0123'') > 20" by (simp add: py_str_def)
  from C9_title_truncation[of "py_str ''abcdefghijklmnopqrstuvwxyz0123''"] h
  show ?thesis by (simp add: py_str_def)
qed

section \<open>Normalization of events\<close>

lemma days_in_month_le_31: "1 \<le> m \<Longrightarrow> m \<le> 12 \<Longrightarrow> days_in_month y m \<le> 31"
  using days_in_month_bounds[of m y] by simp

lemma minus_one_day_ge:
  assumes "valid_date s" "s < e"
  shows "\<exists>e'. minus_one_day e = Inr e' \<and> s \<le> e'"
proof -
  obtain y m d where e: "e = Date y m d" by (cases e)
  obtain sy sm sd where s: "s = Date sy sm sd" by (cases s)
  from assms(1) s have v: "1 \<le> sy" "1 \<le> sm" "sm \<le> 12" "1 \<le> sd" "sd \<le> days_in_month sy sm"
    by (simp_all add: valid_date_def MINYEAR_def)
  from v have sd31: "sd \<le> 31" using days_in_month_le_31[of sm sy] by simp
  from assms(2) e s have lt: "sy < y \<or> (sy = y \<and> (sm < m \<or> (sm = m \<and> sd < d)))"
    by (simp add: less_date_def)
  show ?thesis
  proof (cases "d - 1 = 0")
    case False
    with lt e s show ?thesis
      by (auto simp: minus_one_day_def Let_def less_eq_date_def less_date_def)
  next
    case True
    show ?thesis
    proof (cases "m - 1 > 0")
      case m: True
      from True lt v have "sy < y \<or> (sy = y \<and> (sm < m - 1 \<or> sm = m - 1))" by auto
      with True m e s v show ?thesis
        by (auto simp: minus_one_day_def Let_def less_eq_date_def less_date_def)
    next
      case m: False
      with True lt v have "sy < y" by auto
      with True m e s v sd31 show ?thesis
        by (auto simp: minus_one_day_def Let_def less_eq_date_def less_date_def MINYEAR_def)
    qed
  qed
qed

lemma prepare_event_parsed:
  assumes "to_date P (ev_start ev) = Inr s" "to_date P (ev_end ev) = Inr e"
  shows "prepare_event P fom lom ev =
     (case (if e > s then minus_one_day e else Inr e) of
        Inl err \<Rightarrow> Inl err
      | Inr e_inc \<Rightarrow>
          if max s fom \<le> lom \<and> fom \<le> min e_inc lom
          then Inr (Some \<lparr>summary = (case ev_summary ev of
                                         None \<Rightarrow> py_str ''(No title)'' | Some t \<Rightarrow> t),
                           start_date = max s fom, end_date = min e_inc lom,
                           color_id = ev_color_id ev\<rparr>)
          else Inr None)"
  unfolding prepare_event_def assms py_max_eq py_min_eq Let_def
  by (simp only: sum.case)

lemma prepare_event_SomeD:
  assumes "prepare_event P fom lom ev = Inr (Some p)"
  obtains s e e_inc where "to_date P (ev_start ev) = Inr s" "to_date P (ev_end ev) = Inr e"
    "(if e > s then minus_one_day e else Inr e) = Inr e_inc"
    "max s fom \<le> lom" "fom \<le> min e_inc lom"
    "start_date p = max s fom" "end_date p = min e_inc lom"
proof (cases "to_date P (ev_start ev)")
  case (Inl a)
  with assms show ?thesis by (simp add: prepare_event_def)
next
  case s: (Inr s)
  show ?thesis
  proof (cases "to_date P (ev_end ev)")
    case (Inl a)
    with assms s show ?thesis by (simp add: prepare_event_def)
  next
    case e: (Inr e)
    note pe = prepare_event_parsed[OF s e, of fom lom]
    show ?thesis
    proof (cases "if e > s then minus_one_day e else Inr e")
      case (Inl a)
      have "prepare_event P fom lom ev = Inl a"
        unfolding pe Inl by (simp only: sum.case)
      with assms show ?thesis by simp
    next
      case i: (Inr e_inc)
      show ?thesis
      proof (cases "max s fom \<le> lom \<and> fom \<le> min e_inc lom")
        case False
        have "prepare_event P fom lom ev = Inr None"
          unfolding pe i by (simp only: sum.case False if_False simp_thms)
        with assms show ?thesis by simp
      next
        case True
        have "prepare_event P fom lom ev =
                 Inr (Some \<lparr>summary = (case ev_summary ev of
                                         None \<Rightarrow> py_str ''(No title)'' | Some t \<Rightarrow> t),
                           start_date = max s fom, end_date = min e_inc lom,
                           color_id = ev_color_id ev\<rparr>)"
          unfolding pe i by (simp only: sum.case True if_True simp_thms)
        with assms have "p = \<lparr>summary = (case ev_summary ev of
                                         None \<Rightarrow> py_str ''(No title)'' | Some t \<Rightarrow> t),
                           start_date = max s fom, end_date = min e_inc lom,
                           color_id = ev_color_id ev\<rparr>"
          by simp
        then have "start_date p = max s fom" "end_date p = min e_inc lom" by simp_all
        with s e i True that show ?thesis by blast
      qed
    qed
  qed
qed

lemma prepare_event_bounds:
  assumes "prepare_event P fom lom ev = Inr (Some p)"
  shows "fom \<le> start_date p \<and> start_date p \<le> lom \<and> fom \<le> end_date p \<and> end_date p \<le> lom"
  using assms by (elim prepare_event_SomeD) simp

lemma prepare_event_ordered:
  assumes "prepare_event P fom lom ev = Inr (Some p)"
    and "to_date P (ev_start ev) = Inr s" and "to_date P (ev_end ev) = Inr e"
    and "valid_date s" and "s \<le> e"
  shows "start_date p \<le> end_date p"
proof -
  from assms(1) obtain s' e' e_inc where
    h: "to_date P (ev_start ev) = Inr s'" "to_date P (ev_end ev) = Inr e'"
    "(if e' > s' then minus_one_day e' else Inr e') = Inr e_inc"
    "max s' fom \<le> lom" "fom \<le> min e_inc lom"
    "start_date p = max s' fom" "end_date p = min e_inc lom"
    by (rule prepare_event_SomeD)
  from h(1,2) assms(2,3) have eq: "s' = s" "e' = e" by simp_all
  have "s \<le> e_inc"
  proof (cases "s < e")
    case True
    from minus_one_day_ge[OF assms(4) True] h(3) eq True show ?thesis by auto
  next
    case False
    with assms(5) h(3) eq show ?thesis by auto
  qed
  with h(4-7) eq show ?thesis by simp
qed

lemma prepare_loop_all:
  assumes "prepare_loop P fom lom evs acc = Inr res"
    and "\<forall>p \<in> set acc. Q p"
    and "\<forall>ev \<in> set evs. \<forall>p. prepare_event P fom lom ev = Inr (Some p) \<longrightarrow> Q p"
  shows "\<forall>p \<in> set res. Q p"
  using assms
proof (induction evs arbitrary: acc)
  case Nil
  then show ?case by simp
next
  case (Cons ev evs)
  from Cons.prems(3)
  have tl: "\<forall>ev \<in> set evs. \<forall>p. prepare_event P fom lom ev = Inr (Some p) \<longrightarrow> Q p"
    by (metis list.set_intros(2))
  from Cons.prems(3)
  have hd: "\<And>p. prepare_event P fom lom ev = Inr (Some p) \<Longrightarrow> Q p"
    by (metis list.set_intros(1))
  show ?case
  proof (cases "prepare_event P fom lom ev")
    case (Inl err)
    with Cons.prems(1) show ?thesis by simp
  next
    case (Inr r)
    show ?thesis
    proof (cases r)
      case None
      with Inr Cons.prems(1) have "prepare_loop P fom lom evs acc = Inr res" by simp
      then show ?thesis using Cons.prems(2) tl by (rule Cons.IH)
    next
      case (Some p)
      with Inr Cons.prems(1) have l: "prepare_loop P fom lom evs (acc @ [p]) = Inr res" by simp
      from Inr Some have "Q p" by (intro hd) simp
      with Cons.prems(2) have "\<forall>p' \<in> set (acc @ [p]). Q p'" by auto
      with l show ?thesis using tl by (rule Cons.IH)
    qed
  qed
qed

lemma prepare_loop_append:
  "prepare_loop P fom lom (xs @ ys) acc =
     (case prepare_loop P fom lom xs acc of
        Inl err \<Rightarrow> Inl err
      | Inr acc' \<Rightarrow> prepare_loop P fom lom ys acc')"
  by (induction xs arbitrary: acc) (auto split: sum.splits option.splits)

lemma minus_one_day_first:
  "1 \<le> y \<Longrightarrow> 1 \<le> m \<Longrightarrow> m \<le> 12 \<Longrightarrow>
     minus_one_day (if m = 12 then Date (y + 1) 1 1 else Date y (m + 1) 1) =
       Inr (Date y m (days_in_month y m))"
  by (simp add: minus_one_day_def MINYEAR_def days_in_month_def DAYS_IN_MONTH_def)

lemma month_bounds:
  assumes "prepare_events P events y m = Inr prepared"
  shows "prepare_loop P (Date y m 1) (Date y m (days_in_month y m)) events [] = Inr prepared"
proof -
  from assms obtain fom where f: "mk_date y m 1 = Inr fom"
    by (auto simp: prepare_events_def split: sum.splits)
  from mk_date_InrD[OF f] have fom: "fom = Date y m 1" and v: "1 \<le> y" "1 \<le> m" "m \<le> 12"
    by simp_all
  from assms f obtain fn where
    n: "(if m = 12 then mk_date (y + 1) 1 1 else mk_date y (m + 1) 1) = Inr fn"
    by (auto simp: prepare_events_def split: sum.splits)
  have "fn = (if m = 12 then Date (y + 1) 1 1 else Date y (m + 1) 1)"
  proof (cases "m = 12")
    case True
    with n have "mk_date (y + 1) 1 1 = Inr fn" by simp
    from mk_date_InrD[OF this] True show ?thesis by simp
  next
    case False
    with n have "mk_date y (m + 1) 1 = Inr fn" by simp
    from mk_date_InrD[OF this] False show ?thesis by simp
  qed
  with minus_one_day_first[OF v] have l: "minus_one_day fn = Inr (Date y m (days_in_month y m))"
    by simp
  from assms show ?thesis
    unfolding prepare_events_def by (simp only: f n l fom sum.case)
qed

lemma prepare_events_total:
  assumes "1 \<le> y" "y \<le> 9999" "1 \<le> m" "m \<le> 12" "\<not> (y = 9999 \<and> m = 12)"
  shows "prepare_events P events y m =
           prepare_loop P (Date y m 1) (Date y m (days_in_month y m)) events []"
proof -
  have d: "1 \<le> days_in_month y m"
    using days_in_month_bounds[OF assms(3,4), of y] by simp
  from assms d have f: "mk_date y m 1 = Inr (Date y m 1)"
    by (simp add: mk_date_valid)
  have n: "(if m = 12 then mk_date (y + 1) 1 1 else mk_date y (m + 1) 1) =
             Inr (if m = 12 then Date (y + 1) 1 1 else Date y (m + 1) 1)"
  proof (cases "m = 12")
    case True
    from days_in_month_bounds[of 1 "y + 1"] have "1 \<le> days_in_month (y + 1) 1" by simp
    with True assms show ?thesis by (simp add: mk_date_valid)
  next
    case False
    from days_in_month_bounds[of "m + 1" y] assms(3,4) False have "1 \<le> days_in_month y (m + 1)"
      by simp
    with False assms show ?thesis by (simp add: mk_date_valid)
  qed
  show ?thesis
    unfolding prepare_events_def
    by (simp only: f n minus_one_day_first[OF assms(1,3,4)] sum.case)
qed

lemma prepare_event_no_error:
  assumes "\<forall>s. to_date P (ev_start ev) = Inr s \<longrightarrow> valid_date s"
  shows "\<exists>r. prepare_event P fom lom ev = Inr r"
proof (cases "to_date P (ev_start ev)")
  case (Inl a)
  then show ?thesis by (simp add: prepare_event_def)
next
  case s: (Inr s)
  show ?thesis
  proof (cases "to_date P (ev_end ev)")
    case (Inl a)
    with s show ?thesis by (simp add: prepare_event_def)
  next
    case e: (Inr e)
    show ?thesis
    proof (cases "s < e")
      case True
      from assms s have "valid_date s" by simp
      from minus_one_day_ge[OF this True] s e True show ?thesis
        by (auto simp: prepare_event_def Let_def)
    next
      case False
      with s e show ?thesis by (auto simp: prepare_event_def Let_def)
    qed
  qed
qed

lemma prepare_loop_no_error:
  assumes "\<forall>ev \<in> set evs. \<forall>s. to_date P (ev_start ev) = Inr s \<longrightarrow> valid_date s"
  shows "\<exists>res. prepare_loop P fom lom evs acc = Inr res"
  using assms
proof (induction evs arbitrary: acc)
  case Nil
  then show ?case by simp
next
  case (Cons ev evs)
  from Cons.prems prepare_event_no_error[of P ev fom lom]
  obtain r where r: "prepare_event P fom lom ev = Inr r" by auto
  from Cons.prems have "\<forall>ev \<in> set evs. \<forall>s. to_date P (ev_start ev) = Inr s \<longrightarrow> valid_date s"
    by simp
  from Cons.IH[OF this] r show ?case by (cases r) simp_all
qed

lemma prepare_event_skips_malformed:
  assumes "isl (to_date P (ev_start ev)) \<or> isl (to_date P (ev_end ev))"
  shows "prepare_event P fom lom ev = Inr None"
  using assms by (auto simp: prepare_event_def isl_def split: sum.splits)

text \<open>
  Claim C3. For a raw event whose start and end parse to the dates \<open>s\<close> and \<open>e\<close>,
  normalization takes as inclusive end the day before \<open>e\<close> exactly when \<open>e > s\<close>, and
  \<open>e\<close> itself otherwise, and clips start and that inclusive end to the month. An event
  from 5 March with exclusive end 7 March normalizes to the inclusive range 5 to 6 March.
\<close>

theorem C3_inclusive_end:
  assumes "to_date P (ev_start ev) = Inr s" and "to_date P (ev_end ev) = Inr e"
    and "valid_date s" and "valid_date e"
  shows "\<exists>e_inclusive.
           (if e > s then minus_one_day e = Inr e_inclusive \<and> days_between e e_inclusive = 1
            else e_inclusive = e) \<and>
           prepare_event P fom lom ev =
             (if py_max s fom \<le> lom \<and> py_min e_inclusive lom \<ge> fom
              then Inr (Some \<lparr>summary = (case ev_summary ev of
                                             None \<Rightarrow> py_str ''(No title)'' | Some t \<Rightarrow> t),
                               start_date = py_max s fom,
                               end_date = py_min e_inclusive lom,
                               color_id = ev_color_id ev\<rparr>)
              else Inr None) \<and>
           prepare_events P [all_day (Date 2024 3 5) (Date 2024 3 7)] 2024 3 =
             Inr [spanning (Date 2024 3 5) (Date 2024 3 6)]"
proof -
  have sc: "prepare_events P [all_day (Date 2024 3 5) (Date 2024 3 7)] 2024 3 =
             Inr [spanning (Date 2024 3 5) (Date 2024 3 6)]"
    by code_simp
  note pe = prepare_event_parsed[OF assms(1,2), of fom lom, folded py_max_eq py_min_eq]
  show ?thesis
  proof (cases "e > s")
    case True
    from minus_one_day_ge[OF assms(3) True] obtain e' where e': "minus_one_day e = Inr e'"
      by blast
    from minus_one_day_ordinal[OF assms(4) e'] have "days_between e e' = 1"
      by (simp add: days_between_def)
    with e' True sc show ?thesis
      unfolding pe by (intro exI[of _ e']) (simp only: if_True sum.case simp_thms)
  next
    case False
    with sc show ?thesis
      unfolding pe by (intro exI[of _ e]) (simp only: if_False sum.case simp_thms)
  qed
qed

theorem C3_witness:
  "to_date no_parsers (ev_start (all_day (Date 2024 3 5) (Date 2024 3 7))) = Inr (Date 2024 3 5) \<and>
   to_date no_parsers (ev_end (all_day (Date 2024 3 5) (Date 2024 3 7))) = Inr (Date 2024 3 7) \<and>
   valid_date (Date 2024 3 5) \<and> valid_date (Date 2024 3 7) \<and>
   minus_one_day (Date 2024 3 7) = Inr (Date 2024 3 6) \<and>
   (\<exists>e_inclusive. minus_one_day (Date 2024 3 7) = Inr e_inclusive \<and>
      days_between (Date 2024 3 7) e_inclusive = 1)"
proof -
  have a: "to_date no_parsers (ev_start (all_day (Date 2024 3 5) (Date 2024 3 7))) =
             Inr (Date 2024 3 5)"
    by code_simp
  have b: "to_date no_parsers (ev_end (all_day (Date 2024 3 5) (Date 2024 3 7))) =
             Inr (Date 2024 3 7)"
    by code_simp
  have c: "valid_date (Date 2024 3 5)" by code_simp
  have d: "valid_date (Date 2024 3 7)" by code_simp
  have e: "Date 2024 3 7 > Date 2024 3 5" by code_simp
  have f: "minus_one_day (Date 2024 3 7) = Inr (Date 2024 3 6)" by code_simp
  from C3_inclusive_end[OF a b c d] e
  have "\<exists>e_inclusive. minus_one_day (Date 2024 3 7) = Inr e_inclusive \<and>
      days_between (Date 2024 3 7) e_inclusive = 1"
    by (simp only: if_True) blast
  with a b c d f show ?thesis by blast
qed

lemma prepare_event_inverted:
  assumes "prepare_event P fom lom ev = Inr (Some p)"
    and "to_date P (ev_start ev) = Inr s" and "to_date P (ev_end ev) = Inr e"
    and "e < s"
  shows "end_date p < start_date p"
proof -
  from assms(1) obtain s' e' e_inc where
    h: "to_date P (ev_start ev) = Inr s'" "to_date P (ev_end ev) = Inr e'"
    "(if e' > s' then minus_one_day e' else Inr e') = Inr e_inc"
    "start_date p = max s' fom" "end_date p = min e_inc lom"
    by (rule prepare_event_SomeD)
  from h(1,2) assms(2,3) have eq: "s' = s" "e' = e" by simp_all
  from assms(4) have "\<not> s < e" by simp
  with h(3) eq have "e_inc = e" by simp
  then have "end_date p \<le> e" using h(5) by simp
  also note assms(4)
  also have "s \<le> start_date p" using h(4) eq by simp
  finally show ?thesis .
qed

text \<open>
  Claim C5 as stated fails: a raw event whose end (5 March) precedes its start (10 March)
  is returned by normalization with \<open>start_date > end_date\<close>.
\<close>

theorem C5_counterexample:
  "prepare_events no_parsers [all_day (Date 2024 3 10) (Date 2024 3 5)] 2024 3 =
     Inr [spanning (Date 2024 3 10) (Date 2024 3 5)] \<and>
   \<not> start_date (spanning (Date 2024 3 10) (Date 2024 3 5))
       \<le> end_date (spanning (Date 2024 3 10) (Date 2024 3 5))"
  by code_simp

text \<open>
  Claim C5, amended. Every entry of the prepared list has both dates within the first
  and the last day of the target month. Every entry is the normalization of a raw event
  of the list whose start and end parse to dates \<open>s\<close> and \<open>e\<close>, and
  \<open>start_date \<le> end_date\<close> holds for the entry when \<open>s \<le> e\<close> (\<open>s\<close> being a date
  the constructor accepts), while \<open>end_date < start_date\<close> when \<open>e < s\<close>.
\<close>

theorem C5_prepared_within_month:
  assumes "prepare_events P events y m = Inr prepared" and "p \<in> set prepared"
  shows "Date y m 1 \<le> start_date p \<and> start_date p \<le> Date y m (days_in_month y m) \<and>
         Date y m 1 \<le> end_date p \<and> end_date p \<le> Date y m (days_in_month y m) \<and>
         (\<exists>ev \<in> set events. \<exists>s e.
            to_date P (ev_start ev) = Inr s \<and> to_date P (ev_end ev) = Inr e \<and>
            prepare_event P (Date y m 1) (Date y m (days_in_month y m)) ev = Inr (Some p) \<and>
            (valid_date s \<and> s \<le> e \<longrightarrow> start_date p \<le> end_date p) \<and>
            (e < s \<longrightarrow> end_date p < start_date p))"
proof -
  let ?fom = "Date y m 1" and ?lom = "Date y m (days_in_month y m)"
  let ?Q = "\<lambda>p. ?fom \<le> start_date p \<and> start_date p \<le> ?lom \<and>
         ?fom \<le> end_date p \<and> end_date p \<le> ?lom \<and>
         (\<exists>ev \<in> set events. \<exists>s e.
            to_date P (ev_start ev) = Inr s \<and> to_date P (ev_end ev) = Inr e \<and>
            prepare_event P ?fom ?lom ev = Inr (Some p) \<and>
            (valid_date s \<and> s \<le> e \<longrightarrow> start_date p \<le> end_date p) \<and>
            (e < s \<longrightarrow> end_date p < start_date p))"
  note loop = month_bounds[OF assms(1)]
  have "\<forall>p \<in> set prepared. ?Q p"
    using loop
  proof (rule prepare_loop_all)
    show "\<forall>p \<in> set []. ?Q p" by simp
    show "\<forall>ev \<in> set events. \<forall>p. prepare_event P ?fom ?lom ev = Inr (Some p) \<longrightarrow> ?Q p"
    proof (intro ballI allI impI)
      fix ev q assume ev: "ev \<in> set events" and pe: "prepare_event P ?fom ?lom ev = Inr (Some q)"
      from pe obtain s e where se: "to_date P (ev_start ev) = Inr s" "to_date P (ev_end ev) = Inr e"
        by (rule prepare_event_SomeD)
      have o: "start_date q \<le> end_date q" if "valid_date s \<and> s \<le> e"
        using pe se that by (auto intro: prepare_event_ordered)
      have i: "end_date q < start_date q" if "e < s"
        using pe se that by (rule prepare_event_inverted)
      from prepare_event_bounds[OF pe] ev se pe o i show "?Q q" by blast
    qed
  qed
  with assms(2) show ?thesis by blast
qed

theorem C5_witness:
  "prepare_events no_parsers
     [all_day (Date 2023 5 10) (Date 2023 5 5), all_day (Date 2024 3 1) (Date 2024 3 4)] 2024 3 =
     Inr [spanning (Date 2024 3 1) (Date 2024 3 3)] \<and>
   Date 2024 3 1 \<le> start_date (spanning (Date 2024 3 1) (Date 2024 3 3)) \<and>
   start_date (spanning (Date 2024 3 1) (Date 2024 3 3))
     \<le> end_date (spanning (Date 2024 3 1) (Date 2024 3 3)) \<and>
   end_date (spanning (Date 2024 3 1) (Date 2024 3 3)) \<le> Date 2024 3 (days_in_month 2024 3)"
proof -
  let ?p = "spanning (Date 2024 3 1) (Date 2024 3 3)"
  let ?e1 = "all_day (Date 2023 5 10) (Date 2023 5 5)"
  let ?e2 = "all_day (Date 2024 3 1) (Date 2024 3 4)"
  have a: "prepare_events no_parsers [?e1, ?e2] 2024 3 = Inr [?p]" by code_simp
  have b: "?p \<in> set [?p]" by simp
  have n1: "prepare_event no_parsers (Date 2024 3 1) (Date 2024 3 (days_in_month 2024 3)) ?e1 = Inr None"
    by code_simp
  have v: "valid_date (Date 2024 3 1) \<and> Date 2024 3 1 \<le> Date 2024 3 4" by code_simp
  note T = C5_prepared_within_month[OF a b]
  from T obtain ev s e where ev: "ev \<in> set [?e1, ?e2]"
    and se: "to_date no_parsers (ev_start ev) = Inr s" "to_date no_parsers (ev_end ev) = Inr e"
    and pe: "prepare_event no_parsers (Date 2024 3 1) (Date 2024 3 (days_in_month 2024 3)) ev =
               Inr (Some ?p)"
    and o: "valid_date s \<and> s \<le> e \<longrightarrow> start_date ?p \<le> end_date ?p"
    by blast
  from ev pe n1 have "ev = ?e2" by auto
  with se have "s = Date 2024 3 1" "e = Date 2024 3 4" by (simp_all add: all_day_def)
  with o v have "start_date ?p \<le> end_date ?p" by blast
  with a T show ?thesis by blast
qed

lemma prepare_loop_skip:
  assumes "prepare_event P fom lom bad = Inr None"
  shows "prepare_loop P fom lom (evs1 @ bad # evs2) acc = prepare_loop P fom lom (evs1 @ evs2) acc"
  unfolding prepare_loop_append using assms by (simp split: sum.splits)

lemma prepare_events_skip:
  assumes "\<And>fom lom. prepare_event P fom lom bad = Inr None"
  shows "prepare_events P (evs1 @ bad # evs2) y m = prepare_events P (evs1 @ evs2) y m"
  unfolding prepare_events_def by (simp only: prepare_loop_skip[OF assms])

text \<open>
  Claim C8. An event whose start or end does not convert to a date is skipped by the
  loop body without an error, and the prepared list is the one obtained with that event
  absent; for a month whose bounds can be built and events whose parsed start dates are
  valid dates, normalization returns a list and raises nothing.
\<close>

theorem C8_malformed_event_skipped:
  assumes "isl (to_date P (ev_start bad)) \<or> isl (to_date P (ev_end bad))"
  shows "prepare_event P fom lom bad = Inr None \<and>
         prepare_events P (evs1 @ bad # evs2) y m = prepare_events P (evs1 @ evs2) y m \<and>
         (1 \<le> y \<and> y \<le> 9999 \<and> 1 \<le> m \<and> m \<le> 12 \<and> \<not> (y = 9999 \<and> m = 12) \<and>
          (\<forall>ev \<in> set (evs1 @ evs2). \<forall>s. to_date P (ev_start ev) = Inr s \<longrightarrow> valid_date s)
            \<longrightarrow> (\<exists>prepared. prepare_events P (evs1 @ bad # evs2) y m = Inr prepared))"
proof (intro conjI impI)
  show "prepare_event P fom lom bad = Inr None"
    using assms by (rule prepare_event_skips_malformed)
  show eq: "prepare_events P (evs1 @ bad # evs2) y m = prepare_events P (evs1 @ evs2) y m"
    by (rule prepare_events_skip) (rule prepare_event_skips_malformed[OF assms])
  assume h: "1 \<le> y \<and> y \<le> 9999 \<and> 1 \<le> m \<and> m \<le> 12 \<and> \<not> (y = 9999 \<and> m = 12) \<and>
          (\<forall>ev \<in> set (evs1 @ evs2). \<forall>s. to_date P (ev_start ev) = Inr s \<longrightarrow> valid_date s)"
  then have "prepare_events P (evs1 @ evs2) y m =
      prepare_loop P (Date y m 1) (Date y m (days_in_month y m)) (evs1 @ evs2) []"
    by (intro prepare_events_total) simp_all
  moreover from h have "\<exists>res. prepare_loop P (Date y m 1) (Date y m (days_in_month y m))
      (evs1 @ evs2) [] = Inr res"
    by (intro prepare_loop_no_error) blast
  ultimately show "\<exists>prepared. prepare_events P (evs1 @ bad # evs2) y m = Inr prepared"
    unfolding eq by simp
qed

theorem C8_witness:
  "isl (to_date no_parsers (ev_start (all_day (Date 2024 3 5) (Date 2024 3 7)\<lparr>ev_start := StrObj (py_str ''soon'')\<rparr>))) \<and>
   prepare_events no_parsers
      [all_day (Date 2024 3 1) (Date 2024 3 2),
       all_day (Date 2024 3 5) (Date 2024 3 7)\<lparr>ev_start := StrObj (py_str ''soon'')\<rparr>,
       all_day (Date 2024 3 9) (Date 2024 3 9)] 2024 3 =
     Inr [spanning (Date 2024 3 1) (Date 2024 3 1), spanning (Date 2024 3 9) (Date 2024 3 9)]"
proof -
  have a: "isl (to_date no_parsers (ev_start (all_day (Date 2024 3 5) (Date 2024 3 7)\<lparr>ev_start := StrObj (py_str ''soon'')\<rparr>)))"
    by code_simp
  have b: "prepare_events no_parsers
      ([all_day (Date 2024 3 1) (Date 2024 3 2)] @ [all_day (Date 2024 3 9) (Date 2024 3 9)]) 2024 3 =
     Inr [spanning (Date 2024 3 1) (Date 2024 3 1), spanning (Date 2024 3 9) (Date 2024 3 9)]"
    by code_simp
  from C8_malformed_event_skipped[OF disjI1[OF a], of _ _ "[all_day (Date 2024 3 1) (Date 2024 3 2)]"
      "[all_day (Date 2024 3 9) (Date 2024 3 9)]" 2024 3] a b
  show ?thesis by simp
qed

lemma week_step_inverted:
  assumes "end_date ev < start_date ev" "week \<noteq> []"
  shows "week_step ev wi week W = Inr W"
proof -
  from assms(2) obtain w0 ws where w: "week = w0 # ws" by (cases week) auto
  have "min (end_date ev) (last (w0 # ws)) \<le> end_date ev" by (rule min.cobounded1)
  also note assms(1)
  also have "start_date ev \<le> max (start_date ev) w0" by (rule max.cobounded1)
  finally have "min (end_date ev) (last (w0 # ws)) < max (start_date ev) w0" .
  then have n: "\<not> max (start_date ev) w0 \<le> min (end_date ev) (last (w0 # ws))"
    by (simp only: not_le)
  show ?thesis
    unfolding week_step_def w py_max_eq py_min_eq
    by (simp only: list.case Let_def n if_False)
qed

lemma weeks_loop_inverted:
  assumes "end_date ev < start_date ev" "\<forall>iw \<in> set iws. snd iw \<noteq> []"
  shows "weeks_loop ev iws W = Inr W"
  using assms(2)
proof (induction iws)
  case Nil
  then show ?case by simp
next
  case (Cons a iws)
  obtain wi week where a: "a = (wi, week)" by (cases a)
  with Cons.prems have "week \<noteq> []" by simp
  from week_step_inverted[OF assms(1) this, of wi W] Cons a show ?case by simp
qed

text \<open>
  Claim C10. A prepared event whose \<open>start_date\<close> is after its \<open>end_date\<close> adds no
  segment to any week row: the loop over the weeks returns the rows unchanged. Such an
  event is reachable: a raw event whose end precedes its start, with the end not before
  the first and the start not after the last day of the month, passes the overlap filter
  with both dates unchanged.
\<close>

theorem C10_inverted_event_never_drawn:
  "(end_date p < start_date p \<and> (\<forall>week \<in> set weeks. week \<noteq> [])
      \<longrightarrow> weeks_loop p (enumerate 0 weeks) week_segments = Inr week_segments) \<and>
   (to_date P (ev_start ev) = Inr s \<and> to_date P (ev_end ev) = Inr e \<and>
    e < s \<and> fom \<le> e \<and> s \<le> lom
      \<longrightarrow> (\<exists>q. prepare_event P fom lom ev = Inr (Some q) \<and> start_date q = s \<and> end_date q = e))"
proof (intro conjI impI)
  assume h: "end_date p < start_date p \<and> (\<forall>week \<in> set weeks. week \<noteq> [])"
  then have "\<forall>iw \<in> set (enumerate 0 weeks). snd iw \<noteq> []"
    by (auto simp: in_set_enumerate_eq)
  with h show "weeks_loop p (enumerate 0 weeks) week_segments = Inr week_segments"
    by (intro weeks_loop_inverted) simp_all
next
  assume h: "to_date P (ev_start ev) = Inr s \<and> to_date P (ev_end ev) = Inr e \<and>
    e < s \<and> fom \<le> e \<and> s \<le> lom"
  then have s: "to_date P (ev_start ev) = Inr s" and e: "to_date P (ev_end ev) = Inr e"
    and o: "e < s" "fom \<le> e" "s \<le> lom" by simp_all
  from o have m: "max s fom = s" "min e lom = e" "\<not> s < e" by (auto simp: max_def min_def)
  from o have c: "s \<le> lom \<and> fom \<le> e" by simp
  show "\<exists>q. prepare_event P fom lom ev = Inr (Some q) \<and> start_date q = s \<and> end_date q = e"
    unfolding prepare_event_parsed[OF s e]
    by (simp only: m if_False sum.case c if_True) simp
qed

theorem C10_witness:
  "prepare_events no_parsers [all_day (Date 2024 3 10) (Date 2024 3 5)] 2024 3 =
     Inr [spanning (Date 2024 3 10) (Date 2024 3 5)] \<and>
   end_date (spanning (Date 2024 3 10) (Date 2024 3 5))
     < start_date (spanning (Date 2024 3 10) (Date 2024 3 5)) \<and>
   week_2024_03_03 \<noteq> [] \<and>
   weeks_loop (spanning (Date 2024 3 10) (Date 2024 3 5)) (enumerate 0 [week_2024_03_03]) [[]] =
     Inr [[]] \<and>
   build_week_segments no_parsers 2024 3 [all_day (Date 2024 3 10) (Date 2024 3 5)] =
     Inr [[], [], [], [], [], []]"
proof -
  have a: "prepare_events no_parsers [all_day (Date 2024 3 10) (Date 2024 3 5)] 2024 3 =
     Inr [spanning (Date 2024 3 10) (Date 2024 3 5)]"
    by code_simp
  have b: "end_date (spanning (Date 2024 3 10) (Date 2024 3 5))
     < start_date (spanning (Date 2024 3 10) (Date 2024 3 5))"
    by code_simp
  have c: "\<forall>week \<in> set [week_2024_03_03]. week \<noteq> []"
    by (simp add: week_2024_03_03_def)
  have d: "build_week_segments no_parsers 2024 3 [all_day (Date 2024 3 10) (Date 2024 3 5)] =
     Inr [[], [], [], [], [], []]"
    by code_simp
  from C10_inverted_event_never_drawn[of "spanning (Date 2024 3 10) (Date 2024 3 5)"
      "[week_2024_03_03]" "[[]]"] b c
  have "weeks_loop (spanning (Date 2024 3 10) (Date 2024 3 5)) (enumerate 0 [week_2024_03_03]) [[]] =
     Inr [[]]"
    by blast
  moreover have "week_2024_03_03 \<noteq> []" by (simp add: week_2024_03_03_def)
  ultimately show ?thesis using a b d by blast
qed

end
